theory Spec2Isabelle
  imports Main "HOL-Library.Word" "HOL-Library.Multiset"
begin

section \<open>The slideshow sequencer of the Hammerbeam display widget\<close>

text \<open>
  The widget keeps a shuffled order of the frames of its art catalogue and shows the next
  frame of that order each time its callback runs. The sources hold three versions of the
  callback: \<^verbatim>\<open>rotate_art_cb\<close> and \<^verbatim>\<open>slideshow_cb\<close> (driven by an LVGL timer) and
  \<^verbatim>\<open>slideshow_work_cb\<close> (driven by a delayable work item that re-arms itself).

  The catalogue size \<^verbatim>\<open>ART_FRAME_COUNT\<close> is \<^verbatim>\<open>ARRAY_SIZE(anim_imgs)\<close>, 30 in the sources;
  here it is the parameter \<open>N\<close>, and a frame is identified with its index in
  \<^verbatim>\<open>anim_imgs\<close>.
\<close>

subsection \<open>Data\<close>

type_synonym uint8_t = "8 word"
type_synonym uint32_t = "32 word"

text \<open>What C leaves undefined: an array access outside the array, a remainder by zero.\<close>

datatype error = OutOfBounds | DivisionByZero

text \<open>
  What the program does that can be seen from outside the two variables: a completed run of
  \<^verbatim>\<open>shuffle_order\<close>, and the calls into LVGL and into the Zephyr work queue.
  \<open>Lv_img_set_src k\<close> is the call that shows \<^verbatim>\<open>anim_imgs[k]\<close>; \<open>K_work_schedule d\<close> and
  \<open>Lv_timer_create d\<close> carry the delay in milliseconds.
\<close>

datatype event =
    Shuffle_order
  | Lv_obj_clean
  | Lv_img_create
  | Lv_img_set_src nat
  | Lv_obj_align
  | K_work_init_delayable
  | K_work_schedule nat
  | Lv_timer_create nat

text \<open>
  The file-scope variables \<^verbatim>\<open>order\<close> and \<^verbatim>\<open>order_pos\<close>, and the world around them:
  \<open>rand_calls\<close> counts the calls of \<^verbatim>\<open>sys_rand32_get\<close> made so far, \<open>calls\<close> lists the
  events so far (oldest first), \<open>uptime\<close> is the kernel clock in milliseconds and
  \<open>pending\<close> the time at which the work item \<^verbatim>\<open>slideshow_work\<close> is due, when it is
  scheduled.
\<close>

record state =
  order :: "uint8_t list"
  order_pos :: uint8_t
  rand_calls :: nat
  calls :: "event list"
  uptime :: nat
  pending :: "nat option"

definition ART_ROTATE_INTERVAL :: nat where
  "ART_ROTATE_INTERVAL = 600000"

subsection \<open>Array accesses\<close>

definition read_at :: "'a list \<Rightarrow> nat \<Rightarrow> error + 'a" where
  "read_at xs i = (if i < length xs then Inr (xs ! i) else Inl OutOfBounds)"

definition write_at :: "'a list \<Rightarrow> nat \<Rightarrow> 'a \<Rightarrow> error + 'a list" where
  "write_at xs i v = (if i < length xs then Inr (xs[i := v]) else Inl OutOfBounds)"

subsection \<open>\<^verbatim>\<open>shuffle_order\<close>\<close>

text \<open>
  The first loop, \<^verbatim>\<open>for (uint8_t i = 0; i < ART_FRAME_COUNT; i++) order[i] = i;\<close>.
  The counter is eight bits wide and is compared with the catalogue size at the width of
  \<^verbatim>\<open>size_t\<close>; \<open>i + 1\<close> wraps from 255 to 0. The loop need not end, so its result is an
  option: \<open>None\<close> is a loop that runs forever.
\<close>

partial_function (option) shuffle_order_fill ::
  "nat \<Rightarrow> uint8_t \<Rightarrow> uint8_t list \<Rightarrow> (error + uint8_t list) option" where
  "shuffle_order_fill N i ord =
     (if unat i < N then
        (case write_at ord (unat i) i of
           Inl e \<Rightarrow> Some (Inl e)
         | Inr ord' \<Rightarrow> shuffle_order_fill N (i + 1) ord')
      else Some (Inr ord))"

text \<open>
  The second loop, \<^verbatim>\<open>for (int i = ART_FRAME_COUNT - 1; i > 0; --i)\<close>, from the value of
  \<open>i\<close> it is entered with. The body runs for \<open>i = Suc i'\<close> and the loop goes on with \<open>i'\<close>.
  The counter is an \<^verbatim>\<open>int\<close> in the source and a natural number here: the loop ends before
  the counter gets below 0, and it is entered with \<open>N - 1\<close>, which is an \<^verbatim>\<open>int\<close> for every
  size \<open>N\<close> with which the first loop ends (for \<open>N = 0\<close> the source enters it with -1
  and does nothing, as the loop from 0 does here).
  \<open>rnd k\<close> is the value that the \<open>k\<close>-th call of \<^verbatim>\<open>sys_rand32_get\<close> returns. In
  \<^verbatim>\<open>sys_rand32_get() % (i + 1)\<close> the right operand is converted to \<^verbatim>\<open>uint32_t\<close>.
\<close>

fun shuffle_order_swaps :: "(nat \<Rightarrow> uint32_t) \<Rightarrow> nat \<Rightarrow> state \<Rightarrow> error + state" where
  "shuffle_order_swaps rnd 0 s = Inr s"
| "shuffle_order_swaps rnd (Suc i') s =
     (let i = Suc i';
          r = rnd (rand_calls s);
          s1 = s\<lparr>rand_calls := rand_calls s + 1\<rparr>;
          m = (of_nat (i + 1) :: uint32_t)
      in if m = 0 then Inl DivisionByZero
         else
           let j = unat (r mod m) in
           (case read_at (order s1) i of Inl e \<Rightarrow> Inl e | Inr tmp \<Rightarrow>
           (case read_at (order s1) j of Inl e \<Rightarrow> Inl e | Inr oj \<Rightarrow>
           (case write_at (order s1) i oj of Inl e \<Rightarrow> Inl e | Inr o1 \<Rightarrow>
           (case write_at o1 j tmp of Inl e \<Rightarrow> Inl e | Inr o2 \<Rightarrow>
              shuffle_order_swaps rnd i' (s1\<lparr>order := o2\<rparr>))))))"

definition call :: "event \<Rightarrow> state \<Rightarrow> state" where
  "call e s = s\<lparr>calls := calls s @ [e]\<rparr>"

definition shuffle_order :: "nat \<Rightarrow> (nat \<Rightarrow> uint32_t) \<Rightarrow> state \<Rightarrow> (error + state) option" where
  "shuffle_order N rnd s =
     (case shuffle_order_fill N 0 (order s) of
        None \<Rightarrow> None
      | Some (Inl e) \<Rightarrow> Some (Inl e)
      | Some (Inr ord) \<Rightarrow>
          (case shuffle_order_swaps rnd (N - 1) (s\<lparr>order := ord\<rparr>) of
             Inl e \<Rightarrow> Some (Inl e)
           | Inr s' \<Rightarrow> Some (Inr (call Shuffle_order (s'\<lparr>order_pos := 0\<rparr>)))))"

subsection \<open>The work queue\<close>

text \<open>
  Modelled from the spec: the scheduler behind \<^verbatim>\<open>k_work_init_delayable\<close> and
  \<^verbatim>\<open>k_work_schedule\<close> is the Zephyr kernel's and is not in the sources. The spec describes
  it as a facility \<^verbatim>\<open>schedule_once(callback, delay)\<close> that invokes the callback once, after
  the delay, and that the component re-arms itself after each firing. Here, initialising
  the work item leaves it unscheduled, and scheduling it sets the time it is due to the
  current time plus the delay. A work item that is already scheduled keeps its time, as
  Zephyr documents for \<^verbatim>\<open>k_work_schedule\<close>; the program only ever schedules again at the
  moment at which it has just scheduled, with the same delay, so setting the time anew
  would give the same state.
\<close>

definition k_work_init_delayable :: "state \<Rightarrow> state" where
  "k_work_init_delayable s = (call K_work_init_delayable s)\<lparr>pending := None\<rparr>"

definition k_work_schedule :: "nat \<Rightarrow> state \<Rightarrow> state" where
  "k_work_schedule delay s =
     (call (K_work_schedule delay) s)
       \<lparr>pending := (case pending s of None \<Rightarrow> Some (uptime s + delay) | Some t \<Rightarrow> Some t)\<rparr>"

subsection \<open>The callbacks\<close>

text \<open>
  \<^verbatim>\<open>slideshow_work_cb\<close> of the reworked widget. \<^verbatim>\<open>order_pos >= ART_FRAME_COUNT\<close> compares
  at the width of \<^verbatim>\<open>size_t\<close>; \<^verbatim>\<open>order[order_pos++]\<close> reads the entry and then adds one to
  the eight-bit cursor; the entry read indexes \<^verbatim>\<open>anim_imgs\<close>, which has \<open>N\<close> elements.
\<close>

definition slideshow_work_cb ::
  "nat \<Rightarrow> (nat \<Rightarrow> uint32_t) \<Rightarrow> state \<Rightarrow> (error + state) option" where
  "slideshow_work_cb N rnd s =
     (case (if N \<le> unat (order_pos s) then shuffle_order N rnd s else Some (Inr s)) of
        None \<Rightarrow> None
      | Some (Inl e) \<Rightarrow> Some (Inl e)
      | Some (Inr s1) \<Rightarrow>
          Some (let s2 = call Lv_obj_clean s1;
                    s3 = call Lv_img_create s2
                in (case read_at (order s3) (unat (order_pos s3)) of
                      Inl e \<Rightarrow> Inl e
                    | Inr k \<Rightarrow>
                        let s4 = s3\<lparr>order_pos := order_pos s3 + 1\<rparr>
                        in if unat k < N then
                             Inr (k_work_schedule ART_ROTATE_INTERVAL
                                   (call Lv_obj_align (call (Lv_img_set_src (unat k)) s4)))
                           else Inl OutOfBounds)))"

text \<open>
  \<^verbatim>\<open>rotate_art_cb\<close> and \<^verbatim>\<open>slideshow_cb\<close> of the two earlier versions, which an LVGL timer
  calls. They do not schedule anything themselves.
\<close>

definition rotate_art_cb ::
  "nat \<Rightarrow> (nat \<Rightarrow> uint32_t) \<Rightarrow> state \<Rightarrow> (error + state) option" where
  "rotate_art_cb N rnd s =
     (case (if N \<le> unat (order_pos s) then shuffle_order N rnd s else Some (Inr s)) of
        None \<Rightarrow> None
      | Some (Inl e) \<Rightarrow> Some (Inl e)
      | Some (Inr s1) \<Rightarrow>
          Some (let s2 = call Lv_obj_clean s1;
                    s3 = call Lv_img_create s2
                in (case read_at (order s3) (unat (order_pos s3)) of
                      Inl e \<Rightarrow> Inl e
                    | Inr k \<Rightarrow>
                        let s4 = s3\<lparr>order_pos := order_pos s3 + 1\<rparr>
                        in if unat k < N then
                             Inr (call Lv_obj_align (call (Lv_img_set_src (unat k)) s4))
                           else Inl OutOfBounds)))"

definition slideshow_cb ::
  "nat \<Rightarrow> (nat \<Rightarrow> uint32_t) \<Rightarrow> state \<Rightarrow> (error + state) option" where
  "slideshow_cb N rnd s =
     (case (if N \<le> unat (order_pos s) then shuffle_order N rnd s else Some (Inr s)) of
        None \<Rightarrow> None
      | Some (Inl e) \<Rightarrow> Some (Inl e)
      | Some (Inr s1) \<Rightarrow>
          Some (let s2 = call Lv_obj_clean s1;
                    s3 = call Lv_img_create s2
                in (case read_at (order s3) (unat (order_pos s3)) of
                      Inl e \<Rightarrow> Inl e
                    | Inr k \<Rightarrow>
                        let s4 = s3\<lparr>order_pos := order_pos s3 + 1\<rparr>
                        in if unat k < N then
                             Inr (call Lv_obj_align (call (Lv_img_set_src (unat k)) s4))
                           else Inl OutOfBounds)))"

text \<open>\<open>invoke cb n\<close> runs a callback \<open>n\<close> times in a row and stops at the first failure.\<close>

fun invoke :: "(state \<Rightarrow> (error + state) option) \<Rightarrow> nat \<Rightarrow> state \<Rightarrow> (error + state) option" where
  "invoke cb 0 s = Some (Inr s)"
| "invoke cb (Suc n) s =
     (case cb s of
        None \<Rightarrow> None
      | Some (Inl e) \<Rightarrow> Some (Inl e)
      | Some (Inr s') \<Rightarrow> invoke cb n s')"

subsection \<open>Start-up\<close>

text \<open>
  The part of \<^verbatim>\<open>zmk_widget_status_init\<close> of the reworked widget that starts the slideshow:
  \<^verbatim>\<open>shuffle_order(); k_work_init_delayable(...); slideshow_work_cb(NULL);
  k_work_schedule(...)\<close>. The calls before and after it lay out the widget and subscribe
  the status bar; they touch neither the order nor the work item.
\<close>

definition zmk_widget_status_init ::
  "nat \<Rightarrow> (nat \<Rightarrow> uint32_t) \<Rightarrow> state \<Rightarrow> (error + state) option" where
  "zmk_widget_status_init N rnd s =
     (case shuffle_order N rnd s of
        None \<Rightarrow> None
      | Some (Inl e) \<Rightarrow> Some (Inl e)
      | Some (Inr s1) \<Rightarrow>
          (case slideshow_work_cb N rnd (k_work_init_delayable s1) of
             None \<Rightarrow> None
           | Some (Inl e) \<Rightarrow> Some (Inl e)
           | Some (Inr s2) \<Rightarrow> Some (Inr (k_work_schedule ART_ROTATE_INTERVAL s2))))"

text \<open>
  Modelled from the spec: what happens after start-up is up to the work queue, which is
  not in the sources. Time passes, or the queue looks at the work item and, when it is
  scheduled and due, takes it off the schedule and runs its handler.
\<close>

datatype action = Elapse nat | Run_due

fun queue_step :: "nat \<Rightarrow> (nat \<Rightarrow> uint32_t) \<Rightarrow> action \<Rightarrow> state \<Rightarrow> (error + state) option" where
  "queue_step N rnd (Elapse d) s = Some (Inr (s\<lparr>uptime := uptime s + d\<rparr>))"
| "queue_step N rnd Run_due s =
     (case pending s of
        None \<Rightarrow> Some (Inr s)
      | Some t \<Rightarrow>
          if t \<le> uptime s then slideshow_work_cb N rnd (s\<lparr>pending := None\<rparr>)
          else Some (Inr s))"

fun queue_run :: "nat \<Rightarrow> (nat \<Rightarrow> uint32_t) \<Rightarrow> action list \<Rightarrow> state \<Rightarrow> (error + state) option" where
  "queue_run N rnd [] s = Some (Inr s)"
| "queue_run N rnd (a # as) s =
     (case queue_step N rnd a s of
        None \<Rightarrow> None
      | Some (Inl e) \<Rightarrow> Some (Inl e)
      | Some (Inr s') \<Rightarrow> queue_run N rnd as s')"

subsection \<open>Reading the log\<close>

text \<open>The frames shown, in order, and the events since the last completed shuffle.\<close>

fun frames :: "event list \<Rightarrow> nat list" where
  "frames [] = []"
| "frames (Lv_img_set_src k # es) = k # frames es"
| "frames (e # es) = frames es"

definition since_shuffle :: "event list \<Rightarrow> event list" where
  "since_shuffle es = rev (takeWhile (\<lambda>e. e \<noteq> Shuffle_order) (rev es))"

definition shuffle_count :: "event list \<Rightarrow> nat" where
  "shuffle_count es = length (filter (\<lambda>e. e = Shuffle_order) es)"

text \<open>
  What holds between two runs of the callback: the array has \<open>N\<close> entries, they are the
  indices below \<open>N\<close>, each once, the cursor is at most \<open>N\<close>, and the entries before the
  cursor are the frames shown since the last shuffle.
\<close>

definition is_permutation :: "nat \<Rightarrow> uint8_t list \<Rightarrow> bool" where
  "is_permutation N ord \<longleftrightarrow> mset (map unat ord) = mset [0..<N]"

definition sequencer_inv :: "nat \<Rightarrow> state \<Rightarrow> bool" where
  "sequencer_inv N s \<longleftrightarrow>
     is_permutation N (order s) \<and>
     unat (order_pos s) \<le> N \<and>
     frames (since_shuffle (calls s)) = take (unat (order_pos s)) (map unat (order s))"

text \<open>
  The state the program starts in: \<^verbatim>\<open>order\<close> and \<^verbatim>\<open>order_pos\<close> are statics without an
  initialiser, so they hold zeros; nothing has been called and nothing is scheduled.
\<close>

definition initial_state :: "nat \<Rightarrow> state" where
  "initial_state N =
     \<lparr>order = replicate N 0, order_pos = 0, rand_calls = 0, calls = [], uptime = 0,
      pending = None\<rparr>"

text \<open>
  What the three callbacks have in common: the order, the cursor, the number of values
  taken from the random source and the frames shown.
\<close>

definition sequencer_part :: "state \<Rightarrow> uint8_t list \<times> uint8_t \<times> nat \<times> nat list" where
  "sequencer_part s = (order s, order_pos s, rand_calls s, frames (calls s))"

text \<open>
  A state of the reworked widget with three frames, ten minutes after start-up: the order
  is \<open>[2, 0, 1]\<close>, frame 2 has been shown and the work item has just been taken off the
  schedule to run.
\<close>

definition demo_state :: state where
  "demo_state = \<lparr>order = [2, 0, 1], order_pos = 1, rand_calls = 2, calls = [Shuffle_order,
     Lv_obj_clean, Lv_img_create, Lv_img_set_src 2, Lv_obj_align, K_work_schedule 600000],
     uptime = 600000, pending = None\<rparr>"

text \<open>
  A random source for the examples, and two more states of a widget with three frames
  that draws from it: \<open>demo_start\<close> is the state that the first shuffle leaves, and
  \<open>demo_end\<close> a state at the end of a cycle, all three frames shown.
\<close>

definition demo_rnd :: "nat \<Rightarrow> uint32_t" where
  "demo_rnd k = of_nat (5 * k + 3)"

definition demo_start :: state where
  "demo_start = \<lparr>order = [1, 2, 0], order_pos = 0, rand_calls = 2, calls = [Shuffle_order],
     uptime = 0, pending = None\<rparr>"

definition demo_end :: state where
  "demo_end = \<lparr>order = [2, 0, 1], order_pos = 3, rand_calls = 2,
     calls = [Shuffle_order,
       Lv_obj_clean, Lv_img_create, Lv_img_set_src 2, Lv_obj_align, K_work_schedule 600000,
       Lv_obj_clean, Lv_img_create, Lv_img_set_src 0, Lv_obj_align, K_work_schedule 600000,
       Lv_obj_clean, Lv_img_create, Lv_img_set_src 1, Lv_obj_align, K_work_schedule 600000],
     uptime = 1800000, pending = None\<rparr>"

text \<open>
  The state of the three-frame widget right after start-up, and what it means that no
  frame beyond the list \<open>fs\<close> is shown before the time \<open>due\<close>: either the frames shown are
  still \<open>fs\<close> and the work item is scheduled for \<open>due\<close>, or that time has come.
\<close>

definition demo_running :: state where
  "demo_running = \<lparr>order = [1, 2, 0], order_pos = 1, rand_calls = 2,
     calls = [Shuffle_order, K_work_init_delayable, Lv_obj_clean, Lv_img_create,
       Lv_img_set_src 1, Lv_obj_align, K_work_schedule 600000, K_work_schedule 600000],
     uptime = 0, pending = Some 600000\<rparr>"

definition not_before :: "nat list \<Rightarrow> nat \<Rightarrow> state \<Rightarrow> bool" where
  "not_before fs due t \<longleftrightarrow>
     (frames (calls t) = fs \<and> pending t = Some due) \<or> due \<le> uptime t"

text \<open>
  The same part of \<^verbatim>\<open>zmk_widget_status_init\<close> in the first LVGL-timer version:
  \<^verbatim>\<open>shuffle_order(); rotate_art_cb(NULL); lv_timer_create(rotate_art_cb, ...)\<close>, with the
  interval that the build configures.
\<close>

definition zmk_widget_status_init_lv_timer ::
  "nat \<Rightarrow> nat \<Rightarrow> (nat \<Rightarrow> uint32_t) \<Rightarrow> state \<Rightarrow> (error + state) option" where
  "zmk_widget_status_init_lv_timer N interval rnd s =
     (case shuffle_order N rnd s of
        None \<Rightarrow> None
      | Some (Inl e) \<Rightarrow> Some (Inl e)
      | Some (Inr s1) \<Rightarrow>
          (case rotate_art_cb N rnd s1 of
             None \<Rightarrow> None
           | Some (Inl e) \<Rightarrow> Some (Inl e)
           | Some (Inr s2) \<Rightarrow> Some (Inr (call (Lv_timer_create interval) s2))))"

text \<open>
  One shuffle of the freshly started program, as a function of the values that the random
  source returns: \<open>stream_of rs\<close> is a source that returns the values of the list \<open>rs\<close>
  in turn (and zeros after them), \<open>shuffled N rs\<close> is the order that \<^verbatim>\<open>shuffle_order\<close>
  leaves with this source, and \<open>preimages N p\<close> are the lists of \<open>N - 1\<close> values, one for
  each draw of the shuffle, that lead to the order \<open>p\<close>.
\<close>

definition stream_of :: "uint32_t list \<Rightarrow> nat \<Rightarrow> uint32_t" where
  "stream_of rs k = (if k < length rs then rs ! k else 0)"

definition shuffled :: "nat \<Rightarrow> uint32_t list \<Rightarrow> uint8_t list option" where
  "shuffled N rs =
     (case shuffle_order N (stream_of rs) (initial_state N) of
        None \<Rightarrow> None
      | Some (Inl e) \<Rightarrow> None
      | Some (Inr s') \<Rightarrow> Some (order s'))"

definition preimages :: "nat \<Rightarrow> uint8_t list \<Rightarrow> uint32_t list set" where
  "preimages N p = {rs. length rs = N - 1 \<and> shuffled N rs = Some p}"

text \<open>
  The swaps of the second loop of \<^verbatim>\<open>shuffle_order\<close> on their own, as a function of the
  indices drawn: \<open>js i\<close> is the index \<open>j\<close> that entry \<open>i\<close> is swapped with.
  \<open>drawn_index rnd c i k\<close> is the index that the loop, entered with the counter \<open>i\<close> after
  \<open>c\<close> earlier calls of the random source \<open>rnd\<close>, draws when its counter is \<open>k\<close>.
\<close>

fun swaps_by_index :: "nat \<Rightarrow> (nat \<Rightarrow> nat) \<Rightarrow> 'a list \<Rightarrow> 'a list" where
  "swaps_by_index 0 js a = a"
| "swaps_by_index (Suc i) js a =
     swaps_by_index i js (a[Suc i := a ! js (Suc i), js (Suc i) := a ! Suc i])"

definition drawn_index :: "(nat \<Rightarrow> uint32_t) \<Rightarrow> nat \<Rightarrow> nat \<Rightarrow> nat \<Rightarrow> nat" where
  "drawn_index rnd c i k = unat (rnd (c + (i - k)) mod of_nat (k + 1))"

section \<open>Properties\<close>

subsection \<open>The two loops of \<^verbatim>\<open>shuffle_order\<close>\<close>

lemma write_at_in: "i < length xs \<Longrightarrow> write_at xs i v = Inr (xs[i := v])"
  by (simp add: write_at_def)

lemma read_at_in: "i < length xs \<Longrightarrow> read_at xs i = Inr (xs ! i)"
  by (simp add: read_at_def)

lemma unat_succ_u8: "unat (i :: uint8_t) < 255 \<Longrightarrow> unat (i + 1) = Suc (unat i)"
  by (simp add: unat_word_ariths)

lemma fill_closed:
  "unat i \<le> N \<Longrightarrow> N \<le> 255 \<Longrightarrow> length ord = N \<Longrightarrow>
   shuffle_order_fill N i ord = Some (Inr (take (unat i) ord @ map of_nat [unat i..<N]))"
proof (induction "N - unat i" arbitrary: i ord)
  case 0
  then have "unat i = N" by simp
  with 0 show ?case by (subst shuffle_order_fill.simps) simp
next
  case (Suc d)
  then have lt: "unat i < N" by simp
  with Suc.prems have nx: "unat (i + 1) = Suc (unat i)" by (simp add: unat_succ_u8)
  have "shuffle_order_fill N (i + 1) (ord[unat i := i]) =
        Some (Inr (take (unat (i + 1)) (ord[unat i := i]) @ map of_nat [unat (i + 1)..<N]))"
    using Suc lt nx by (intro Suc.hyps) simp_all
  moreover have "take (Suc (unat i)) (ord[unat i := i]) = take (unat i) ord @ [i]"
    using lt Suc.prems by (simp add: take_Suc_conv_app_nth)
  moreover have "[unat i..<N] = unat i # [Suc (unat i)..<N]"
    using lt by (simp add: upt_conv_Cons)
  ultimately show ?case
    using lt Suc.prems nx by (subst shuffle_order_fill.simps) (simp add: write_at_in)
qed

lemma fill_diverges_aux:
  assumes "shuffle_order_fill N i ord = Some y"
  shows "\<not> (256 \<le> N \<and> length ord = N)"
proof (rule shuffle_order_fill.raw_induct
    [where P = "\<lambda>N i ord y. \<not> (256 \<le> N \<and> length ord = N)", OF _ assms])
  fix f :: "nat \<Rightarrow> uint8_t \<Rightarrow> uint8_t list \<Rightarrow> (error + uint8_t list) option"
  fix N i ord y
  assume IH: "\<And>N i ord y. f N i ord = Some y \<Longrightarrow> \<not> (256 \<le> N \<and> length ord = N)"
  assume body: "(if unat i < N
        then case write_at ord (unat i) i of Inl e \<Rightarrow> Some (Inl e)
             | Inr ord' \<Rightarrow> f N (i + 1) ord'
        else Some (Inr ord)) = Some y"
  show "\<not> (256 \<le> N \<and> length ord = N)"
  proof
    assume big: "256 \<le> N \<and> length ord = N"
    have "unat i < 256" using unsigned_less [of i, where 'a = nat] by simp
    with big have lt: "unat i < N" by simp
    with body big have "f N (i + 1) (ord[unat i := i]) = Some y"
      by (simp add: write_at_in)
    from IH [OF this] big show False by simp
  qed
qed

lemma fill_diverges: "256 \<le> N \<Longrightarrow> length ord = N \<Longrightarrow> shuffle_order_fill N i ord = None"
  using fill_diverges_aux [of N i ord] by (cases "shuffle_order_fill N i ord") auto

lemma unat_of_nat_u32: "n < 2 ^ 32 \<Longrightarrow> unat (of_nat n :: uint32_t) = n"
  by (simp add: unat_of_nat)

lemma draw_in_range:
  assumes "i + 1 < 2 ^ 32"
  shows "(of_nat (i + 1) :: uint32_t) \<noteq> 0" and "unat (r mod (of_nat (i + 1) :: uint32_t)) \<le> i"
proof -
  have u: "unat (of_nat (i + 1) :: uint32_t) = i + 1"
    using assms by (rule unat_of_nat_u32)
  then show nz: "(of_nat (i + 1) :: uint32_t) \<noteq> 0" by (metis Suc_eq_plus1 nat.simps(3) unat_0)
  have "unat (r mod (of_nat (i + 1) :: uint32_t)) = unat r mod (i + 1)"
    using u by (simp add: unat_mod)
  then show "unat (r mod (of_nat (i + 1) :: uint32_t)) \<le> i"
    by (metis Suc_eq_plus1 less_Suc_eq_le mod_less_divisor zero_less_Suc)
qed

lemma swaps_closed:
  "i = 0 \<or> i < length (order s) \<Longrightarrow> length (order s) < 2 ^ 32 \<Longrightarrow>
   \<exists>ord'. shuffle_order_swaps rnd i s = Inr (s\<lparr>order := ord', rand_calls := rand_calls s + i\<rparr>)
     \<and> mset ord' = mset (order s)"
proof (induction i arbitrary: s)
  case 0
  then show ?case by (intro exI [of _ "order s"]) simp
next
  case (Suc i')
  let ?i = "Suc i'"
  let ?r = "rnd (rand_calls s)"
  let ?m = "of_nat (?i + 1) :: uint32_t"
  let ?j = "unat (?r mod ?m)"
  from Suc.prems have il: "?i < length (order s)" by simp
  with Suc.prems have small: "?i + 1 < 2 ^ 32" by simp
  have nz: "?m \<noteq> 0" and jle: "?j \<le> ?i"
    using draw_in_range [OF small] by blast+
  from jle il have jl: "?j < length (order s)" by simp
  let ?o2 = "(order s)[?i := order s ! ?j, ?j := order s ! ?i]"
  let ?s2 = "s\<lparr>rand_calls := rand_calls s + 1, order := ?o2\<rparr>"
  have step: "shuffle_order_swaps rnd ?i s = shuffle_order_swaps rnd i' ?s2"
    using nz il jl by (simp add: Let_def read_at_in write_at_in)
  have "i' = 0 \<or> i' < length (order ?s2)" using il by simp
  moreover have "length (order ?s2) < 2 ^ 32" using Suc.prems by simp
  ultimately obtain ord' where
    r: "shuffle_order_swaps rnd i' ?s2 = Inr (?s2\<lparr>order := ord', rand_calls := rand_calls ?s2 + i'\<rparr>)"
    and m: "mset ord' = mset (order ?s2)"
    using Suc.IH [of ?s2] by blast
  have "mset ?o2 = mset (order s)"
    using il jl by (simp add: mset_swap)
  with m r step show ?case
    by (intro exI [of _ ord']) simp
qed

lemma is_permutation_length: "is_permutation N ord \<Longrightarrow> length ord = N"
  by (metis is_permutation_def length_map length_upt minus_nat.diff_0 size_mset)

lemma is_permutation_nth: "is_permutation N ord \<Longrightarrow> k < N \<Longrightarrow> unat (ord ! k) < N"
proof -
  assume p: "is_permutation N ord" and k: "k < N"
  then have "k < length (map unat ord)" by (simp add: is_permutation_length)
  then have "map unat ord ! k \<in> set (map unat ord)" by (rule nth_mem)
  also have "set (map unat ord) = set [0..<N]"
    using p by (metis is_permutation_def set_mset_mset)
  finally show ?thesis using k p by (simp add: is_permutation_length)
qed

lemma is_permutation_identity: "N \<le> 256 \<Longrightarrow> is_permutation N (map of_nat [0..<N])"
proof -
  assume "N \<le> 256"
  then have "map (unat \<circ> (of_nat :: nat \<Rightarrow> uint8_t)) [0..<N] = map id [0..<N]"
    by (intro map_cong) (auto simp: unat_of_nat)
  then show ?thesis by (simp add: is_permutation_def)
qed

lemma shuffle_order_closed:
  assumes "N \<le> 255" and "length (order s) = N"
  shows "\<exists>ord'. shuffle_order N rnd s =
           Some (Inr (s\<lparr>order := ord', order_pos := 0, rand_calls := rand_calls s + (N - 1),
                        calls := calls s @ [Shuffle_order]\<rparr>))
         \<and> is_permutation N ord'"
proof -
  let ?id = "map of_nat [0..<N] :: uint8_t list"
  have fill: "shuffle_order_fill N 0 (order s) = Some (Inr ?id)"
    using fill_closed [of 0 N "order s"] assms by simp
  let ?s1 = "s\<lparr>order := ?id\<rparr>"
  have "N - 1 = 0 \<or> N - 1 < length (order ?s1)" by auto
  moreover have "length (order ?s1) < 2 ^ 32" using assms by simp
  ultimately obtain ord' where
    sw: "shuffle_order_swaps rnd (N - 1) ?s1 =
           Inr (?s1\<lparr>order := ord', rand_calls := rand_calls ?s1 + (N - 1)\<rparr>)"
    and m: "mset ord' = mset (order ?s1)"
    using swaps_closed [of "N - 1" ?s1 rnd] by blast
  from m have "mset (map unat ord') = mset (map unat ?id)"
    by (metis mset_map select_convs(1) surjective update_convs(1))
  then have "is_permutation N ord'"
    using is_permutation_identity [of N] assms by (simp add: is_permutation_def)
  moreover have "shuffle_order N rnd s =
      Some (Inr (s\<lparr>order := ord', order_pos := 0, rand_calls := rand_calls s + (N - 1),
                   calls := calls s @ [Shuffle_order]\<rparr>))"
    using sw by (simp add: shuffle_order_def fill call_def)
  ultimately show ?thesis by blast
qed

lemma shuffle_order_diverges:
  "256 \<le> N \<Longrightarrow> length (order s) = N \<Longrightarrow> shuffle_order N rnd s = None"
  by (simp add: shuffle_order_def fill_diverges)

lemma shuffle_order_returns_small:
  "shuffle_order N rnd s = Some r \<Longrightarrow> length (order s) = N \<Longrightarrow> N \<le> 255"
  using shuffle_order_diverges [of N s rnd] by (cases "N \<le> 255") auto

subsection \<open>The log\<close>

lemma frames_append: "frames (xs @ ys) = frames xs @ frames ys"
  by (induction xs rule: frames.induct) simp_all

lemma since_shuffle_snoc:
  "since_shuffle (es @ [e]) = (if e = Shuffle_order then [] else since_shuffle es @ [e])"
  by (simp add: since_shuffle_def)

lemma shuffle_count_append:
  "shuffle_count (xs @ ys) = shuffle_count xs + shuffle_count ys"
  by (simp add: shuffle_count_def)

lemma call_fields:
  "order (call e s) = order s" "order_pos (call e s) = order_pos s"
  "rand_calls (call e s) = rand_calls s" "calls (call e s) = calls s @ [e]"
  "uptime (call e s) = uptime s" "pending (call e s) = pending s"
  by (simp_all add: call_def)

lemma k_work_schedule_fields:
  "order (k_work_schedule d s) = order s" "order_pos (k_work_schedule d s) = order_pos s"
  "rand_calls (k_work_schedule d s) = rand_calls s"
  "calls (k_work_schedule d s) = calls s @ [K_work_schedule d]"
  "uptime (k_work_schedule d s) = uptime s"
  "pending (k_work_schedule d s) =
     (case pending s of None \<Rightarrow> Some (uptime s + d) | Some t \<Rightarrow> Some t)"
  by (simp_all add: k_work_schedule_def call_def)

subsection \<open>One run of a callback\<close>

text \<open>The calls that show frame \<open>k\<close>.\<close>

lemma rotate_art_cb_next:
  assumes "unat (order_pos s) < N" and "is_permutation N (order s)"
  shows "rotate_art_cb N rnd s =
    Some (Inr (s\<lparr>order_pos := order_pos s + 1,
                 calls := calls s @ [Lv_obj_clean, Lv_img_create,
                   Lv_img_set_src (unat (order s ! unat (order_pos s))), Lv_obj_align]\<rparr>))"
proof -
  have "unat (order_pos s) < length (order s)"
    using assms by (simp add: is_permutation_length)
  moreover have "unat (order s ! unat (order_pos s)) < N"
    using assms by (simp add: is_permutation_nth)
  ultimately show ?thesis
    using assms(1) by (simp add: rotate_art_cb_def call_def read_at_in Let_def)
qed

lemma rotate_art_cb_reshuffle:
  assumes "N \<le> unat (order_pos s)" and "1 \<le> N" and "length (order s) = N"
  shows "\<exists>ord'. is_permutation N ord' \<and>
    shuffle_order N rnd s =
      Some (Inr (s\<lparr>order := ord', order_pos := 0, rand_calls := rand_calls s + (N - 1),
                   calls := calls s @ [Shuffle_order]\<rparr>)) \<and>
    rotate_art_cb N rnd s =
      Some (Inr (s\<lparr>order := ord', order_pos := 1, rand_calls := rand_calls s + (N - 1),
                   calls := calls s @ [Shuffle_order, Lv_obj_clean, Lv_img_create,
                     Lv_img_set_src (unat (ord' ! 0)), Lv_obj_align]\<rparr>))"
proof -
  have "unat (order_pos s) < 256" using unsigned_less [of "order_pos s", where 'a = nat] by simp
  with assms(1) have small: "N \<le> 255" by simp
  obtain ord' where
    r: "shuffle_order N rnd s =
          Some (Inr (s\<lparr>order := ord', order_pos := 0, rand_calls := rand_calls s + (N - 1),
                       calls := calls s @ [Shuffle_order]\<rparr>))"
    and p: "is_permutation N ord'"
    using shuffle_order_closed [OF small assms(3)] by blast
  have "0 < length ord'" using p assms(2) by (simp add: is_permutation_length)
  moreover have "unat (ord' ! 0) < N" using p assms(2) by (simp add: is_permutation_nth)
  ultimately have "rotate_art_cb N rnd s =
      Some (Inr (s\<lparr>order := ord', order_pos := 1, rand_calls := rand_calls s + (N - 1),
                   calls := calls s @ [Shuffle_order, Lv_obj_clean, Lv_img_create,
                     Lv_img_set_src (unat (ord' ! 0)), Lv_obj_align]\<rparr>))"
    using assms(1,2) r by (simp add: rotate_art_cb_def call_def read_at_in Let_def)
  with p r show ?thesis by blast
qed

text \<open>The three callbacks differ in the call that re-arms the work item, and in nothing else.\<close>

lemma slideshow_cb_eq_rotate: "slideshow_cb N rnd s = rotate_art_cb N rnd s"
  by (simp add: slideshow_cb_def rotate_art_cb_def)

lemma slideshow_work_cb_eq_rotate:
  "slideshow_work_cb N rnd s =
     (case rotate_art_cb N rnd s of
        None \<Rightarrow> None
      | Some (Inl e) \<Rightarrow> Some (Inl e)
      | Some (Inr s') \<Rightarrow> Some (Inr (k_work_schedule ART_ROTATE_INTERVAL s')))"
  by (simp add: slideshow_work_cb_def rotate_art_cb_def Let_def
      split: option.splits sum.splits)

lemma slideshow_work_cb_next:
  assumes "unat (order_pos s) < N" and "is_permutation N (order s)"
  shows "slideshow_work_cb N rnd s =
    Some (Inr (k_work_schedule ART_ROTATE_INTERVAL
      (s\<lparr>order_pos := order_pos s + 1,
         calls := calls s @ [Lv_obj_clean, Lv_img_create,
           Lv_img_set_src (unat (order s ! unat (order_pos s))), Lv_obj_align]\<rparr>)))"
  by (simp add: slideshow_work_cb_eq_rotate rotate_art_cb_next [OF assms])

lemma slideshow_work_cb_reshuffle:
  assumes "N \<le> unat (order_pos s)" and "1 \<le> N" and "length (order s) = N"
  shows "\<exists>ord'. is_permutation N ord' \<and>
    shuffle_order N rnd s =
      Some (Inr (s\<lparr>order := ord', order_pos := 0, rand_calls := rand_calls s + (N - 1),
                   calls := calls s @ [Shuffle_order]\<rparr>)) \<and>
    slideshow_work_cb N rnd s =
      Some (Inr (k_work_schedule ART_ROTATE_INTERVAL
        (s\<lparr>order := ord', order_pos := 1, rand_calls := rand_calls s + (N - 1),
           calls := calls s @ [Shuffle_order, Lv_obj_clean, Lv_img_create,
             Lv_img_set_src (unat (ord' ! 0)), Lv_obj_align]\<rparr>)))"
proof -
  obtain ord' where "is_permutation N ord'"
    and "shuffle_order N rnd s =
      Some (Inr (s\<lparr>order := ord', order_pos := 0, rand_calls := rand_calls s + (N - 1),
                   calls := calls s @ [Shuffle_order]\<rparr>))"
    and "rotate_art_cb N rnd s =
      Some (Inr (s\<lparr>order := ord', order_pos := 1, rand_calls := rand_calls s + (N - 1),
                   calls := calls s @ [Shuffle_order, Lv_obj_clean, Lv_img_create,
                     Lv_img_set_src (unat (ord' ! 0)), Lv_obj_align]\<rparr>))"
    using rotate_art_cb_reshuffle [OF assms] by blast
  then show ?thesis
    by (intro exI [of _ ord']) (simp add: slideshow_work_cb_eq_rotate)
qed

subsection \<open>Runs of \<^verbatim>\<open>slideshow_work_cb\<close>\<close>

lemma since_shuffle_append:
  assumes "Shuffle_order \<notin> set ys"
  shows "since_shuffle (xs @ ys) = since_shuffle xs @ ys"
proof -
  have "takeWhile (\<lambda>e. e \<noteq> Shuffle_order) (rev ys @ rev xs) =
        rev ys @ takeWhile (\<lambda>e. e \<noteq> Shuffle_order) (rev xs)"
    using assms by (intro takeWhile_append2) auto
  then show ?thesis by (simp add: since_shuffle_def)
qed

lemma since_shuffle_restart:
  assumes "Shuffle_order \<notin> set ys"
  shows "since_shuffle (xs @ Shuffle_order # ys) = ys"
proof -
  have "takeWhile (\<lambda>e. e \<noteq> Shuffle_order) (rev ys @ Shuffle_order # rev xs) = rev ys"
    using assms by (auto simp add: takeWhile_tail)
  then show ?thesis by (simp add: since_shuffle_def)
qed

lemma invoke_add:
  "invoke cb (m + n) s =
     (case invoke cb m s of
        None \<Rightarrow> None
      | Some (Inl e) \<Rightarrow> Some (Inl e)
      | Some (Inr s') \<Rightarrow> invoke cb n s')"
  by (induction m arbitrary: s) (simp_all split: option.splits sum.splits)

lemma unat_cursor_succ: "unat (p :: uint8_t) < N \<Longrightarrow> N \<le> 255 \<Longrightarrow> unat (p + 1) = Suc (unat p)"
  by (simp add: unat_succ_u8)

text \<open>A run of the callback that does not reshuffle.\<close>

lemma slideshow_work_cb_next_facts:
  assumes "unat (order_pos s) < N" and "N \<le> 255" and "is_permutation N (order s)"
  shows "\<exists>s'. slideshow_work_cb N rnd s = Some (Inr s')
    \<and> order s' = order s \<and> unat (order_pos s') = Suc (unat (order_pos s))
    \<and> rand_calls s' = rand_calls s \<and> uptime s' = uptime s
    \<and> calls s' = calls s @ [Lv_obj_clean, Lv_img_create,
         Lv_img_set_src (unat (order s ! unat (order_pos s))), Lv_obj_align,
         K_work_schedule ART_ROTATE_INTERVAL]"
  using slideshow_work_cb_next [OF assms(1,3), of rnd] unat_cursor_succ [OF assms(1,2)]
  by (simp add: k_work_schedule_fields)

lemma slideshow_work_cb_reshuffle_facts:
  assumes "N \<le> unat (order_pos s)" and "1 \<le> N" and "length (order s) = N"
  shows "\<exists>s'. slideshow_work_cb N rnd s = Some (Inr s')
    \<and> is_permutation N (order s') \<and> order_pos s' = 1
    \<and> rand_calls s' = rand_calls s + (N - 1) \<and> uptime s' = uptime s
    \<and> calls s' = calls s @ [Shuffle_order, Lv_obj_clean, Lv_img_create,
         Lv_img_set_src (unat (order s' ! 0)), Lv_obj_align,
         K_work_schedule ART_ROTATE_INTERVAL]"
proof -
  obtain ord' where "is_permutation N ord'"
    and "slideshow_work_cb N rnd s =
      Some (Inr (k_work_schedule ART_ROTATE_INTERVAL
        (s\<lparr>order := ord', order_pos := 1, rand_calls := rand_calls s + (N - 1),
           calls := calls s @ [Shuffle_order, Lv_obj_clean, Lv_img_create,
             Lv_img_set_src (unat (ord' ! 0)), Lv_obj_align]\<rparr>)))"
    using slideshow_work_cb_reshuffle [OF assms, of rnd] by blast
  then show ?thesis by (simp add: k_work_schedule_fields)
qed

lemma slideshow_work_cb_inv:
  assumes "1 \<le> N" and "N \<le> 255" and "sequencer_inv N s"
  shows "\<exists>s'. slideshow_work_cb N rnd s = Some (Inr s') \<and> sequencer_inv N s'"
proof (cases "N \<le> unat (order_pos s)")
  case True
  from assms(3) have "length (order s) = N"
    by (simp add: sequencer_inv_def is_permutation_length)
  from slideshow_work_cb_reshuffle_facts [OF True assms(1) this, of rnd]
  obtain s' where cb: "slideshow_work_cb N rnd s = Some (Inr s')"
    and p: "is_permutation N (order s')" and pos: "order_pos s' = 1"
    and c: "calls s' = calls s @ [Shuffle_order, Lv_obj_clean, Lv_img_create,
         Lv_img_set_src (unat (order s' ! 0)), Lv_obj_align,
         K_work_schedule ART_ROTATE_INTERVAL]"
    by blast
  have "0 < length (order s')" using p assms(1) by (simp add: is_permutation_length)
  then have "take (Suc 0) (map unat (order s')) = [unat (order s' ! 0)]"
    by (simp add: take_Suc_conv_app_nth)
  moreover have "since_shuffle (calls s') = [Lv_obj_clean, Lv_img_create,
         Lv_img_set_src (unat (order s' ! 0)), Lv_obj_align,
         K_work_schedule ART_ROTATE_INTERVAL]"
    unfolding c by (rule since_shuffle_restart) simp
  ultimately have "sequencer_inv N s'"
    using p pos assms(1) by (simp add: sequencer_inv_def)
  with cb show ?thesis by blast
next
  case False
  then have lt: "unat (order_pos s) < N" by simp
  from assms(3) have p: "is_permutation N (order s)"
    and f: "frames (since_shuffle (calls s)) = take (unat (order_pos s)) (map unat (order s))"
    by (simp_all add: sequencer_inv_def)
  from slideshow_work_cb_next_facts [OF lt assms(2) p, of rnd]
  obtain s' where cb: "slideshow_work_cb N rnd s = Some (Inr s')"
    and o: "order s' = order s" and pos: "unat (order_pos s') = Suc (unat (order_pos s))"
    and c: "calls s' = calls s @ [Lv_obj_clean, Lv_img_create,
         Lv_img_set_src (unat (order s ! unat (order_pos s))), Lv_obj_align,
         K_work_schedule ART_ROTATE_INTERVAL]"
    by blast
  have "since_shuffle (calls s') = since_shuffle (calls s) @ [Lv_obj_clean, Lv_img_create,
         Lv_img_set_src (unat (order s ! unat (order_pos s))), Lv_obj_align,
         K_work_schedule ART_ROTATE_INTERVAL]"
    unfolding c by (rule since_shuffle_append) simp
  moreover have "unat (order_pos s) < length (map unat (order s))"
    using lt p by (simp add: is_permutation_length)
  then have "take (Suc (unat (order_pos s))) (map unat (order s)) =
      take (unat (order_pos s)) (map unat (order s)) @ [unat (order s ! unat (order_pos s))]"
    by (simp add: take_Suc_conv_app_nth)
  ultimately have "sequencer_inv N s'"
    using p o pos lt f by (simp add: sequencer_inv_def frames_append)
  with cb show ?thesis by blast
qed

lemma invoke_inv:
  assumes "1 \<le> N" and "N \<le> 255" and "sequencer_inv N s"
  shows "\<exists>s'. invoke (slideshow_work_cb N rnd) n s = Some (Inr s') \<and> sequencer_inv N s'"
  using assms(3)
proof (induction n arbitrary: s)
  case 0
  then show ?case by simp
next
  case (Suc n)
  from slideshow_work_cb_inv [OF assms(1,2) Suc.prems, of rnd]
  obtain s1 where "slideshow_work_cb N rnd s = Some (Inr s1)" and "sequencer_inv N s1"
    by blast
  with Suc.IH [of s1] show ?case by simp
qed

text \<open>The state that \<^verbatim>\<open>shuffle_order\<close> leaves.\<close>

lemma shuffle_order_result:
  assumes "length (order s) = N" and "shuffle_order N rnd s = Some (Inr s0)"
  shows "N \<le> 255" and "is_permutation N (order s0)" and "order_pos s0 = 0"
    and "calls s0 = calls s @ [Shuffle_order]" and "rand_calls s0 = rand_calls s + (N - 1)"
    and "uptime s0 = uptime s" and "pending s0 = pending s"
    and "sequencer_inv N s0"
proof -
  show small: "N \<le> 255" using assms by (metis shuffle_order_returns_small)
  from shuffle_order_closed [OF small assms(1), of rnd] assms(2)
  obtain ord' where s0: "s0 = s\<lparr>order := ord', order_pos := 0,
      rand_calls := rand_calls s + (N - 1), calls := calls s @ [Shuffle_order]\<rparr>"
    and p: "is_permutation N ord'"
    by auto
  from s0 p show "is_permutation N (order s0)" and "order_pos s0 = 0"
    and "calls s0 = calls s @ [Shuffle_order]" and "rand_calls s0 = rand_calls s + (N - 1)"
    and "uptime s0 = uptime s" and "pending s0 = pending s"
    by simp_all
  then show "sequencer_inv N s0"
    by (simp add: sequencer_inv_def since_shuffle_snoc)
qed

text \<open>The runs of the callback up to the end of a cycle.\<close>

lemma invoke_within_cycle:
  assumes "N \<le> 255" and "is_permutation N (order s)" and "unat (order_pos s) + n \<le> N"
  shows "\<exists>s'. invoke (slideshow_work_cb N rnd) n s = Some (Inr s')
    \<and> order s' = order s \<and> unat (order_pos s') = unat (order_pos s) + n
    \<and> rand_calls s' = rand_calls s \<and> uptime s' = uptime s
    \<and> shuffle_count (calls s') = shuffle_count (calls s)
    \<and> frames (calls s') =
        frames (calls s) @ take n (drop (unat (order_pos s)) (map unat (order s)))"
  using assms(2,3)
proof (induction n arbitrary: s)
  case 0
  then show ?case by simp
next
  case (Suc n)
  then have lt: "unat (order_pos s) < N" by simp
  from slideshow_work_cb_next_facts [OF lt assms(1) Suc.prems(1), of rnd]
  obtain s1 where cb: "slideshow_work_cb N rnd s = Some (Inr s1)"
    and o: "order s1 = order s" and pos: "unat (order_pos s1) = Suc (unat (order_pos s))"
    and r: "rand_calls s1 = rand_calls s" and u: "uptime s1 = uptime s"
    and c: "calls s1 = calls s @ [Lv_obj_clean, Lv_img_create,
         Lv_img_set_src (unat (order s ! unat (order_pos s))), Lv_obj_align,
         K_work_schedule ART_ROTATE_INTERVAL]"
    by blast
  have "is_permutation N (order s1)" and "unat (order_pos s1) + n \<le> N"
    using o pos Suc.prems by simp_all
  from Suc.IH [OF this]
  obtain s' where i: "invoke (slideshow_work_cb N rnd) n s1 = Some (Inr s')"
    and f: "order s' = order s1" "unat (order_pos s') = unat (order_pos s1) + n"
      "rand_calls s' = rand_calls s1" "uptime s' = uptime s1"
      "shuffle_count (calls s') = shuffle_count (calls s1)"
      "frames (calls s') =
        frames (calls s1) @ take n (drop (unat (order_pos s1)) (map unat (order s1)))"
    by blast
  have "unat (order_pos s) < length (map unat (order s))"
    using lt Suc.prems(1) by (simp add: is_permutation_length)
  then have "drop (unat (order_pos s)) (map unat (order s)) =
      unat (order s ! unat (order_pos s)) # drop (Suc (unat (order_pos s))) (map unat (order s))"
    by (simp add: Cons_nth_drop_Suc [symmetric])
  then show ?case
    using cb i f o pos r u c by (simp add: frames_append shuffle_count_append shuffle_count_def)
qed

subsection \<open>The examples\<close>

lemma initial_state_3:
  "initial_state 3 = \<lparr>order = [0, 0, 0], order_pos = 0, rand_calls = 0, calls = [],
     uptime = 0, pending = None\<rparr>"
  by (simp add: initial_state_def numeral_3_eq_3)

lemma fill_3: "length ord = 3 \<Longrightarrow> shuffle_order_fill 3 0 ord = Some (Inr [0, 1, 2])"
  using fill_closed [of 0 3 ord] by (simp add: upt_rec)

lemma swaps_3:
  "shuffle_order_swaps demo_rnd 2 \<lparr>order = [0, 1, 2], order_pos = p, rand_calls = 0,
      calls = c, uptime = u, pending = q\<rparr> =
   Inr \<lparr>order = [1, 2, 0], order_pos = p, rand_calls = 2, calls = c, uptime = u,
      pending = q\<rparr>"
  unfolding numeral_2_eq_2
  by (simp add: demo_rnd_def read_at_def write_at_def Let_def)

lemma swaps_3_again:
  "shuffle_order_swaps demo_rnd 2 \<lparr>order = [0, 1, 2], order_pos = p, rand_calls = 2,
      calls = c, uptime = u, pending = q\<rparr> =
   Inr \<lparr>order = [2, 0, 1], order_pos = p, rand_calls = 4, calls = c, uptime = u,
      pending = q\<rparr>"
proof -
  have "shuffle_order_swaps demo_rnd (Suc (Suc 0)) \<lparr>order = [0, 1, 2], order_pos = p,
      rand_calls = 2, calls = c, uptime = u, pending = q\<rparr> =
   Inr \<lparr>order = [2, 0, 1], order_pos = p, rand_calls = 4, calls = c, uptime = u,
      pending = q\<rparr>"
    by (simp add: demo_rnd_def read_at_def write_at_def Let_def)
  then show ?thesis by (simp only: numeral_2_eq_2)
qed

lemma shuffle_demo_initial:
  "shuffle_order 3 demo_rnd (initial_state 3) = Some (Inr demo_start)"
  by (simp add: shuffle_order_def initial_state_3 fill_3 swaps_3 call_def demo_start_def)

lemma shuffle_demo_end:
  "shuffle_order 3 demo_rnd demo_end =
     Some (Inr (demo_end\<lparr>order := [2, 0, 1], order_pos := 0, rand_calls := 4,
       calls := calls demo_end @ [Shuffle_order]\<rparr>))"
  by (simp add: shuffle_order_def fill_3 swaps_3_again call_def demo_end_def)

subsection \<open>The result of \<^verbatim>\<open>shuffle_order\<close>\<close>

text \<open>
  C2, as the code has it. For every catalogue size from 1 to 255, whatever the random
  source returns, \<^verbatim>\<open>shuffle_order\<close> returns, and it leaves in \<^verbatim>\<open>order\<close> a permutation of
  the indices \<open>0, \<dots>, N - 1\<close> (the same set, no entry twice) and the cursor at 0. The
  bound 255 is the largest size that the eight-bit loop counter can count up to.
\<close>

theorem shuffle_order_permutation:
  assumes "1 \<le> N" and "N \<le> 255" and "length (order s) = N"
  shows "\<exists>s'. shuffle_order N rnd s = Some (Inr s')
           \<and> mset (map unat (order s')) = mset [0..<N]
           \<and> set (map unat (order s')) = {0..<N}
           \<and> distinct (order s')
           \<and> order_pos s' = 0"
proof -
  obtain ord' where
    r: "shuffle_order N rnd s =
          Some (Inr (s\<lparr>order := ord', order_pos := 0, rand_calls := rand_calls s + (N - 1),
                       calls := calls s @ [Shuffle_order]\<rparr>))"
    and p: "is_permutation N ord'"
    using shuffle_order_closed [OF assms(2,3)] by blast
  from p have m: "mset (map unat ord') = mset [0..<N]"
    by (simp add: is_permutation_def)
  then have "set (map unat ord') = set [0..<N]"
    by (rule mset_eq_setD)
  moreover from m have "distinct (map unat ord')"
    by (metis distinct_upt mset_eq_imp_distinct_iff)
  then have "distinct ord'"
    by (simp add: distinct_map)
  ultimately show ?thesis
    using r m by simp
qed

theorem shuffle_order_permutation_witness:
  "(1::nat) \<le> 3 \<and> (3::nat) \<le> 255 \<and> length (order (initial_state 3)) = 3 \<and>
   (\<exists>s'. shuffle_order 3 (\<lambda>k. 7) (initial_state 3) = Some (Inr s')
      \<and> mset (map unat (order s')) = mset [0..<3]
      \<and> set (map unat (order s')) = {0..<3}
      \<and> distinct (order s')
      \<and> order_pos s' = 0)"
  using shuffle_order_permutation [of 3 "initial_state 3" "\<lambda>k. 7"]
  by (simp add: initial_state_def)

text \<open>
  C2 as stated, for every \<open>N \<ge> 1\<close>, fails at \<open>N = 256\<close>: the counter of the first loop
  is a \<^verbatim>\<open>uint8_t\<close>, stays below 256 and the loop never ends.
\<close>

theorem shuffle_order_permutation_counterexample:
  "shuffle_order 256 (\<lambda>k. 0) (initial_state 256) = None"
  by (rule shuffle_order_diverges) (simp_all add: initial_state_def)

subsection \<open>One run of \<^verbatim>\<open>slideshow_work_cb\<close>\<close>

lemma demo_state_permutation: "is_permutation 3 (order demo_state)"
  by (simp add: is_permutation_def demo_state_def upt_rec)

text \<open>
  C9. For every \<open>N \<ge> 1\<close>, in a state whose order is a permutation of the indices below
  \<open>N\<close> and whose cursor is at most \<open>N\<close>, every array access of the callback is inside
  its array: after the branch that reshuffles on exhaustion the cursor is below \<open>N\<close>, the
  length of \<^verbatim>\<open>order\<close>, so the read of \<^verbatim>\<open>order[order_pos]\<close> succeeds; the entry read is
  below \<open>N\<close>, the length of \<^verbatim>\<open>anim_imgs\<close>; and the callback returns a state, not an
  error.
\<close>

theorem slideshow_work_cb_in_bounds:
  assumes "1 \<le> N" and "is_permutation N (order s)" and "unat (order_pos s) \<le> N"
  shows "\<exists>s1 k s'.
     (if N \<le> unat (order_pos s) then shuffle_order N rnd s else Some (Inr s)) = Some (Inr s1)
     \<and> unat (order_pos s1) < N
     \<and> length (order s1) = N
     \<and> read_at (order s1) (unat (order_pos s1)) = Inr k
     \<and> unat k < N
     \<and> slideshow_work_cb N rnd s = Some (Inr s')"
proof (cases "N \<le> unat (order_pos s)")
  case True
  from assms(2) have len: "length (order s) = N" by (rule is_permutation_length)
  obtain ord' where p: "is_permutation N ord'"
    and sh: "shuffle_order N rnd s =
      Some (Inr (s\<lparr>order := ord', order_pos := 0, rand_calls := rand_calls s + (N - 1),
                   calls := calls s @ [Shuffle_order]\<rparr>))"
    and cb: "\<exists>s'. slideshow_work_cb N rnd s = Some (Inr s')"
    using slideshow_work_cb_reshuffle [OF True assms(1) len, of rnd] by blast
  have "length ord' = N" using p by (rule is_permutation_length)
  moreover have "unat (ord' ! 0) < N" using p assms(1) by (simp add: is_permutation_nth)
  ultimately show ?thesis
    using True sh cb assms(1) by (simp add: read_at_in)
next
  case False
  then have lt: "unat (order_pos s) < N" by simp
  have "length (order s) = N" using assms(2) by (rule is_permutation_length)
  moreover have "unat (order s ! unat (order_pos s)) < N"
    using assms(2) lt by (rule is_permutation_nth)
  ultimately show ?thesis
    using False lt slideshow_work_cb_next [OF lt assms(2), of rnd] by (simp add: read_at_in)
qed

theorem slideshow_work_cb_in_bounds_witness:
  "(1::nat) \<le> 3 \<and> is_permutation 3 (order demo_state) \<and> unat (order_pos demo_state) \<le> 3 \<and>
   (\<exists>s1 k s'.
     (if 3 \<le> unat (order_pos demo_state) then shuffle_order 3 (\<lambda>k. 7) demo_state
      else Some (Inr demo_state)) = Some (Inr s1)
     \<and> unat (order_pos s1) < 3
     \<and> length (order s1) = 3
     \<and> read_at (order s1) (unat (order_pos s1)) = Inr k
     \<and> unat k < 3
     \<and> slideshow_work_cb 3 (\<lambda>k. 7) demo_state = Some (Inr s'))"
proof -
  have h: "unat (order_pos demo_state) \<le> 3" by (simp add: demo_state_def)
  show ?thesis
    using slideshow_work_cb_in_bounds [of 3 demo_state "\<lambda>k. 7", OF _ demo_state_permutation h]
      demo_state_permutation h by simp
qed

text \<open>
  C6. Every run of the callback, in a state as above, does the following in this order: it
  reshuffles if the cursor has reached \<open>N\<close>, and takes the entry of the order at the
  cursor; it clears the art container; it creates the image, sets its source to the frame
  taken and aligns it; and last it schedules the work item again, ART_ROTATE_INTERVAL
  milliseconds ahead. A work item that is off the schedule, as it is when the queue
  runs the callback, is then due one interval after the current time.
\<close>

theorem slideshow_work_cb_calls:
  assumes "1 \<le> N" and "is_permutation N (order s)" and "unat (order_pos s) \<le> N"
  shows "\<exists>s1 s'.
     (if N \<le> unat (order_pos s) then shuffle_order N rnd s else Some (Inr s)) = Some (Inr s1)
     \<and> calls s1 = calls s @ (if N \<le> unat (order_pos s) then [Shuffle_order] else [])
     \<and> slideshow_work_cb N rnd s = Some (Inr s')
     \<and> calls s' = calls s1 @ [Lv_obj_clean, Lv_img_create,
          Lv_img_set_src (unat (order s1 ! unat (order_pos s1))), Lv_obj_align,
          K_work_schedule ART_ROTATE_INTERVAL]
     \<and> order s' = order s1 \<and> order_pos s' = order_pos s1 + 1
     \<and> pending s' =
         (case pending s of None \<Rightarrow> Some (uptime s + ART_ROTATE_INTERVAL) | Some t \<Rightarrow> Some t)"
proof (cases "N \<le> unat (order_pos s)")
  case True
  from assms(2) have len: "length (order s) = N" by (rule is_permutation_length)
  obtain ord' where
    sh: "shuffle_order N rnd s =
      Some (Inr (s\<lparr>order := ord', order_pos := 0, rand_calls := rand_calls s + (N - 1),
                   calls := calls s @ [Shuffle_order]\<rparr>))"
    and cb: "slideshow_work_cb N rnd s =
      Some (Inr (k_work_schedule ART_ROTATE_INTERVAL
        (s\<lparr>order := ord', order_pos := 1, rand_calls := rand_calls s + (N - 1),
           calls := calls s @ [Shuffle_order, Lv_obj_clean, Lv_img_create,
             Lv_img_set_src (unat (ord' ! 0)), Lv_obj_align]\<rparr>)))"
    using slideshow_work_cb_reshuffle [OF True assms(1) len, of rnd] by blast
  show ?thesis
    using True sh cb by (simp add: k_work_schedule_fields split: option.splits)
next
  case False
  then have lt: "unat (order_pos s) < N" by simp
  show ?thesis
    using False slideshow_work_cb_next [OF lt assms(2), of rnd]
    by (simp add: k_work_schedule_fields split: option.splits)
qed

theorem slideshow_work_cb_calls_witness:
  "(1::nat) \<le> 3 \<and> is_permutation 3 (order demo_state) \<and> unat (order_pos demo_state) \<le> 3 \<and>
   (\<exists>s'. slideshow_work_cb 3 (\<lambda>k. 7) demo_state = Some (Inr s')
     \<and> calls s' = calls demo_state @ [Lv_obj_clean, Lv_img_create, Lv_img_set_src 0,
          Lv_obj_align, K_work_schedule 600000]
     \<and> order s' = [2, 0, 1] \<and> order_pos s' = 2
     \<and> pending s' = Some 1200000)"
proof -
  have h: "unat (order_pos demo_state) \<le> 3" by (simp add: demo_state_def)
  show ?thesis
    using slideshow_work_cb_calls [of 3 demo_state "\<lambda>k. 7", OF _ demo_state_permutation h]
      demo_state_permutation h
    by (auto simp add: demo_state_def ART_ROTATE_INTERVAL_def)
qed

subsection \<open>The three versions of the callback\<close>

text \<open>
  C10. The callbacks \<^verbatim>\<open>rotate_art_cb\<close> and \<^verbatim>\<open>slideshow_cb\<close> of the two LVGL-timer
  versions and \<^verbatim>\<open>slideshow_work_cb\<close> of the reworked version, run from the same state
  with the same catalogue size and the same random values, fail alike or leave the same
  order, the same cursor, the same number of random values taken and the same frames
  shown; the two timer versions are equal altogether.
\<close>

theorem callbacks_agree:
  "map_option (map_sum id sequencer_part) (rotate_art_cb N rnd s) =
     map_option (map_sum id sequencer_part) (slideshow_work_cb N rnd s)
   \<and> map_option (map_sum id sequencer_part) (slideshow_cb N rnd s) =
     map_option (map_sum id sequencer_part) (slideshow_work_cb N rnd s)
   \<and> slideshow_cb N rnd s = rotate_art_cb N rnd s"
  by (simp add: slideshow_cb_eq_rotate slideshow_work_cb_eq_rotate sequencer_part_def
      k_work_schedule_fields frames_append split: option.splits sum.splits)

subsection \<open>Cycles\<close>

text \<open>
  C1. For every catalogue size \<open>N \<ge> 2\<close>, in the state \<open>s0\<close> that a run of
  \<^verbatim>\<open>shuffle_order\<close> has just left, \<open>N\<close> runs of the callback in a row all return, and the
  frames they show are the indices \<open>0, \<dots>, N - 1\<close>, each exactly once. The same holds
  for \<open>N\<close> runs from a state whose cursor has reached \<open>N\<close>, where the first of the runs
  does the reshuffle itself.
\<close>

theorem full_cycle_shows_each_frame_once:
  assumes "2 \<le> N" and "length (order s) = N" and "shuffle_order N rnd s = Some (Inr s0)"
  shows "(\<exists>s' fs. invoke (slideshow_work_cb N rnd) N s0 = Some (Inr s')
            \<and> frames (calls s') = frames (calls s0) @ fs
            \<and> length fs = N \<and> set fs = {0..<N} \<and> distinct fs)
       \<and> (N \<le> unat (order_pos s) \<longrightarrow>
           (\<exists>s' fs. invoke (slideshow_work_cb N rnd) N s = Some (Inr s')
            \<and> frames (calls s') = frames (calls s) @ fs
            \<and> length fs = N \<and> set fs = {0..<N} \<and> distinct fs))"
proof -
  note r = shuffle_order_result [OF assms(2,3)]
  let ?fs = "map unat (order s0)"
  have m: "mset ?fs = mset [0..<N]" using r(2) by (simp add: is_permutation_def)
  then have set: "set ?fs = {0..<N}" by (metis mset_eq_setD set_upt)
  from m have dist: "distinct ?fs" by (metis distinct_upt mset_eq_imp_distinct_iff)
  have len: "length ?fs = N" using r(2) by (simp add: is_permutation_length)
  have "unat (order_pos s0) + N \<le> N" using r(3) by simp
  from invoke_within_cycle [OF r(1,2) this, of rnd]
  obtain s' where i: "invoke (slideshow_work_cb N rnd) N s0 = Some (Inr s')"
    and f: "frames (calls s') = frames (calls s0) @ ?fs"
    using r(3) len by auto
  have first: "\<exists>s' fs. invoke (slideshow_work_cb N rnd) N s0 = Some (Inr s')
            \<and> frames (calls s') = frames (calls s0) @ fs
            \<and> length fs = N \<and> set fs = {0..<N} \<and> distinct fs"
    using i f len set dist by blast
  have second: "\<exists>s' fs. invoke (slideshow_work_cb N rnd) N s = Some (Inr s')
            \<and> frames (calls s') = frames (calls s) @ fs
            \<and> length fs = N \<and> set fs = {0..<N} \<and> distinct fs"
    if ex: "N \<le> unat (order_pos s)"
  proof -
    have pos1: "1 \<le> N" using assms(1) by simp
    have same: "slideshow_work_cb N rnd s = slideshow_work_cb N rnd s0"
      using ex assms(1,3) r(3) by (simp add: slideshow_work_cb_def)
    have "invoke (slideshow_work_cb N rnd) N s = invoke (slideshow_work_cb N rnd) N s0"
      using assms(1) same by (cases N) simp_all
    moreover have "frames (calls s0) = frames (calls s)"
      using r(4) by (simp add: frames_append)
    ultimately show ?thesis using first by simp
  qed
  from first second show ?thesis by blast
qed

theorem full_cycle_shows_each_frame_once_witness:
  "(2::nat) \<le> 3 \<and> length (order demo_end) = 3
   \<and> shuffle_order 3 demo_rnd demo_end =
       Some (Inr (demo_end\<lparr>order := [2, 0, 1], order_pos := 0, rand_calls := 4,
         calls := calls demo_end @ [Shuffle_order]\<rparr>))
   \<and> 3 \<le> unat (order_pos demo_end)
   \<and> (\<exists>s' fs. invoke (slideshow_work_cb 3 demo_rnd) 3
           (demo_end\<lparr>order := [2, 0, 1], order_pos := 0, rand_calls := 4,
              calls := calls demo_end @ [Shuffle_order]\<rparr>) = Some (Inr s')
         \<and> frames (calls s') = frames (calls demo_end @ [Shuffle_order]) @ fs
         \<and> length fs = 3 \<and> set fs = {0..<3} \<and> distinct fs)
   \<and> (\<exists>s' fs. invoke (slideshow_work_cb 3 demo_rnd) 3 demo_end = Some (Inr s')
         \<and> frames (calls s') = frames (calls demo_end) @ fs
         \<and> length fs = 3 \<and> set fs = {0..<3} \<and> distinct fs)"
proof -
  have l: "length (order demo_end) = 3" and p: "3 \<le> unat (order_pos demo_end)"
    by (simp_all add: demo_end_def)
  from full_cycle_shows_each_frame_once [OF _ l shuffle_demo_end] p l shuffle_demo_end
  show ?thesis by simp
qed

text \<open>
  C4. For every \<open>N \<ge> 1\<close>, from the state \<open>s0\<close> that a run of \<^verbatim>\<open>shuffle_order\<close> has just
  left: each of the first \<open>N\<close> runs of the callback reads the entry at the cursor, shows
  it and moves the cursor on by one, without reshuffling (after \<open>n \<le> N\<close> runs the cursor
  is \<open>n\<close>, the order is unchanged and the frames shown are its first \<open>n\<close> entries); after
  \<open>N\<close> runs the cursor is \<open>N\<close>; the run after that, the \<open>(N + 1)\<close>-th, reshuffles once,
  shows entry 0 of the new order and leaves the cursor at 1.
\<close>

theorem reshuffle_on_call_after_cycle:
  assumes "1 \<le> N" and "length (order s) = N" and "shuffle_order N rnd s = Some (Inr s0)"
    and "n \<le> N"
  shows "\<exists>sn sN s'.
      invoke (slideshow_work_cb N rnd) n s0 = Some (Inr sn)
    \<and> order sn = order s0 \<and> unat (order_pos sn) = n
    \<and> frames (calls sn) = frames (calls s0) @ take n (map unat (order s0))
    \<and> shuffle_count (calls sn) = shuffle_count (calls s0)
    \<and> invoke (slideshow_work_cb N rnd) N s0 = Some (Inr sN)
    \<and> unat (order_pos sN) = N
    \<and> shuffle_count (calls sN) = shuffle_count (calls s0)
    \<and> slideshow_work_cb N rnd sN = Some (Inr s')
    \<and> invoke (slideshow_work_cb N rnd) (N + 1) s0 = Some (Inr s')
    \<and> shuffle_count (calls s') = shuffle_count (calls s0) + 1
    \<and> order_pos s' = 1
    \<and> frames (calls s') = frames (calls sN) @ [unat (order s' ! 0)]"
proof -
  note r = shuffle_order_result [OF assms(2,3)]
  have "unat (order_pos s0) + n \<le> N" using r(3) assms(4) by simp
  from invoke_within_cycle [OF r(1,2) this, of rnd]
  obtain sn where n: "invoke (slideshow_work_cb N rnd) n s0 = Some (Inr sn)"
    "order sn = order s0" "unat (order_pos sn) = n"
    "frames (calls sn) = frames (calls s0) @ take n (map unat (order s0))"
    "shuffle_count (calls sn) = shuffle_count (calls s0)"
    using r(3) by auto
  have "unat (order_pos s0) + N \<le> N" using r(3) by simp
  from invoke_within_cycle [OF r(1,2) this, of rnd]
  obtain sN where N: "invoke (slideshow_work_cb N rnd) N s0 = Some (Inr sN)"
    "order sN = order s0" "unat (order_pos sN) = N"
    "shuffle_count (calls sN) = shuffle_count (calls s0)"
    using r(3) by auto
  have "N \<le> unat (order_pos sN)" and "length (order sN) = N"
    using N r(2) by (simp_all add: is_permutation_length)
  from slideshow_work_cb_reshuffle_facts [OF this(1) assms(1) this(2), of rnd]
  obtain s' where c: "slideshow_work_cb N rnd sN = Some (Inr s')" "order_pos s' = 1"
    "calls s' = calls sN @ [Shuffle_order, Lv_obj_clean, Lv_img_create,
         Lv_img_set_src (unat (order s' ! 0)), Lv_obj_align,
         K_work_schedule ART_ROTATE_INTERVAL]"
    by blast
  have "invoke (slideshow_work_cb N rnd) (N + 1) s0 = Some (Inr s')"
    unfolding invoke_add using N(1) c(1) by simp
  moreover have "shuffle_count (calls s') = shuffle_count (calls s0) + 1"
    using c(3) N(4) by (simp add: shuffle_count_def)
  moreover have "frames (calls s') = frames (calls sN) @ [unat (order s' ! 0)]"
    using c(3) by (simp add: frames_append)
  ultimately show ?thesis using n N c by blast
qed

theorem reshuffle_on_call_after_cycle_witness:
  "(1::nat) \<le> 3 \<and> length (order (initial_state 3)) = 3
   \<and> shuffle_order 3 demo_rnd (initial_state 3) = Some (Inr demo_start)
   \<and> (2::nat) \<le> 3
   \<and> (\<exists>sn sN s'.
      invoke (slideshow_work_cb 3 demo_rnd) 2 demo_start = Some (Inr sn)
    \<and> order sn = order demo_start \<and> unat (order_pos sn) = 2
    \<and> frames (calls sn) = frames (calls demo_start) @ take 2 (map unat (order demo_start))
    \<and> shuffle_count (calls sn) = shuffle_count (calls demo_start)
    \<and> invoke (slideshow_work_cb 3 demo_rnd) 3 demo_start = Some (Inr sN)
    \<and> unat (order_pos sN) = 3
    \<and> shuffle_count (calls sN) = shuffle_count (calls demo_start)
    \<and> slideshow_work_cb 3 demo_rnd sN = Some (Inr s')
    \<and> invoke (slideshow_work_cb 3 demo_rnd) (3 + 1) demo_start = Some (Inr s')
    \<and> shuffle_count (calls s') = shuffle_count (calls demo_start) + 1
    \<and> order_pos s' = 1
    \<and> frames (calls s') = frames (calls sN) @ [unat (order s' ! 0)])"
proof -
  have l: "length (order (initial_state 3)) = 3" by (simp add: initial_state_3)
  from reshuffle_on_call_after_cycle [OF _ l shuffle_demo_initial, of 2] l shuffle_demo_initial
  show ?thesis by simp
qed

text \<open>
  C5. For every \<open>N \<ge> 1\<close>, after the first shuffle and any number \<open>n\<close> of runs of the
  callback (all of which return): the cursor is between 0 and \<open>N\<close>; the order is a
  permutation of the indices below \<open>N\<close>, none twice; its entries before the cursor are the
  frames shown since the last shuffle; and when the cursor is \<open>N\<close>, the next run of the
  callback first reshuffles, which puts the cursor back to 0, and only then takes an entry,
  the one at 0.
\<close>

theorem reachable_states_invariant:
  assumes "1 \<le> N" and "length (order s) = N" and "shuffle_order N rnd s = Some (Inr s0)"
  shows "\<exists>s'. invoke (slideshow_work_cb N rnd) n s0 = Some (Inr s')
    \<and> unat (order_pos s') \<le> N
    \<and> mset (map unat (order s')) = mset [0..<N]
    \<and> distinct (order s')
    \<and> take (unat (order_pos s')) (map unat (order s')) = frames (since_shuffle (calls s'))
    \<and> set (take (unat (order_pos s')) (map unat (order s'))) =
        set (frames (since_shuffle (calls s')))
    \<and> (unat (order_pos s') = N \<longrightarrow>
         (\<exists>s1 s''. shuffle_order N rnd s' = Some (Inr s1)
            \<and> order_pos s1 = 0
            \<and> calls s1 = calls s' @ [Shuffle_order]
            \<and> slideshow_work_cb N rnd s' = Some (Inr s'')
            \<and> calls s'' = calls s1 @ [Lv_obj_clean, Lv_img_create,
                 Lv_img_set_src (unat (order s1 ! 0)), Lv_obj_align,
                 K_work_schedule ART_ROTATE_INTERVAL]))"
proof -
  note r = shuffle_order_result [OF assms(2,3)]
  from invoke_inv [OF assms(1) r(1) r(8), of rnd n]
  obtain s' where i: "invoke (slideshow_work_cb N rnd) n s0 = Some (Inr s')"
    and inv: "sequencer_inv N s'"
    by blast
  from inv have p: "is_permutation N (order s')" and le: "unat (order_pos s') \<le> N"
    and f: "frames (since_shuffle (calls s')) = take (unat (order_pos s')) (map unat (order s'))"
    by (simp_all add: sequencer_inv_def)
  from p have m: "mset (map unat (order s')) = mset [0..<N]" by (simp add: is_permutation_def)
  then have "distinct (map unat (order s'))" by (metis distinct_upt mset_eq_imp_distinct_iff)
  then have d: "distinct (order s')" by (simp add: distinct_map)
  have last: "\<exists>s1 s''. shuffle_order N rnd s' = Some (Inr s1)
            \<and> order_pos s1 = 0
            \<and> calls s1 = calls s' @ [Shuffle_order]
            \<and> slideshow_work_cb N rnd s' = Some (Inr s'')
            \<and> calls s'' = calls s1 @ [Lv_obj_clean, Lv_img_create,
                 Lv_img_set_src (unat (order s1 ! 0)), Lv_obj_align,
                 K_work_schedule ART_ROTATE_INTERVAL]"
    if e: "unat (order_pos s') = N"
  proof -
    have "N \<le> unat (order_pos s')" using e by simp
    moreover have "length (order s') = N" using p by (rule is_permutation_length)
    ultimately obtain ord' where
      "shuffle_order N rnd s' =
        Some (Inr (s'\<lparr>order := ord', order_pos := 0, rand_calls := rand_calls s' + (N - 1),
                     calls := calls s' @ [Shuffle_order]\<rparr>))"
      and "slideshow_work_cb N rnd s' =
        Some (Inr (k_work_schedule ART_ROTATE_INTERVAL
          (s'\<lparr>order := ord', order_pos := 1, rand_calls := rand_calls s' + (N - 1),
             calls := calls s' @ [Shuffle_order, Lv_obj_clean, Lv_img_create,
               Lv_img_set_src (unat (ord' ! 0)), Lv_obj_align]\<rparr>)))"
      using slideshow_work_cb_reshuffle [OF _ assms(1), of s' rnd] by blast
    then show ?thesis by (simp add: k_work_schedule_fields)
  qed
  from i le m d f last show ?thesis by simp
qed

theorem reachable_states_invariant_witness:
  "(1::nat) \<le> 3 \<and> length (order (initial_state 3)) = 3
   \<and> shuffle_order 3 demo_rnd (initial_state 3) = Some (Inr demo_start)
   \<and> (\<exists>s'. invoke (slideshow_work_cb 3 demo_rnd) 3 demo_start = Some (Inr s')
    \<and> unat (order_pos s') = 3
    \<and> mset (map unat (order s')) = mset [0..<3]
    \<and> distinct (order s')
    \<and> take (unat (order_pos s')) (map unat (order s')) = frames (since_shuffle (calls s'))
    \<and> (\<exists>s1 s''. shuffle_order 3 demo_rnd s' = Some (Inr s1)
            \<and> order_pos s1 = 0
            \<and> calls s1 = calls s' @ [Shuffle_order]
            \<and> slideshow_work_cb 3 demo_rnd s' = Some (Inr s'')
            \<and> calls s'' = calls s1 @ [Lv_obj_clean, Lv_img_create,
                 Lv_img_set_src (unat (order s1 ! 0)), Lv_obj_align,
                 K_work_schedule ART_ROTATE_INTERVAL]))"
proof -
  have l: "length (order (initial_state 3)) = 3" by (simp add: initial_state_3)
  have p: "is_permutation 3 (order demo_start)"
    by (simp add: is_permutation_def demo_start_def upt_rec)
  have "unat (order_pos demo_start) + 3 \<le> 3" by (simp add: demo_start_def)
  from invoke_within_cycle [OF _ p this, of demo_rnd]
  obtain t where t: "invoke (slideshow_work_cb 3 demo_rnd) 3 demo_start = Some (Inr t)"
    "unat (order_pos t) = 3"
    by (auto simp add: demo_start_def)
  from reachable_states_invariant [OF _ l shuffle_demo_initial, of 3] t
  have "unat (order_pos t) = 3
    \<and> mset (map unat (order t)) = mset [0..<3]
    \<and> distinct (order t)
    \<and> take (unat (order_pos t)) (map unat (order t)) = frames (since_shuffle (calls t))
    \<and> (\<exists>s1 s''. shuffle_order 3 demo_rnd t = Some (Inr s1)
            \<and> order_pos s1 = 0
            \<and> calls s1 = calls t @ [Shuffle_order]
            \<and> slideshow_work_cb 3 demo_rnd t = Some (Inr s'')
            \<and> calls s'' = calls s1 @ [Lv_obj_clean, Lv_img_create,
                 Lv_img_set_src (unat (order s1 ! 0)), Lv_obj_align,
                 K_work_schedule ART_ROTATE_INTERVAL])"
    by simp
  with t l shuffle_demo_initial show ?thesis by auto
qed

subsection \<open>A catalogue of one frame\<close>

lemma is_permutation_one: "is_permutation 1 ord \<Longrightarrow> ord = [0]"
proof -
  assume p: "is_permutation 1 ord"
  then have l: "length ord = 1" by (rule is_permutation_length)
  from p have "unat (ord ! 0) < 1" by (rule is_permutation_nth) simp
  then have "ord ! 0 = 0" by (simp add: unat_eq_zero)
  with l show ?thesis by (cases ord) simp_all
qed

lemma slideshow_work_cb_single:
  assumes "sequencer_inv 1 t"
  shows "\<exists>t'. slideshow_work_cb 1 rnd t = Some (Inr t') \<and> sequencer_inv 1 t'
    \<and> rand_calls t' = rand_calls t \<and> order t' = [0]
    \<and> frames (calls t') = frames (calls t) @ [0]
    \<and> shuffle_count (calls t') \<le> shuffle_count (calls t) + 1"
proof -
  from slideshow_work_cb_inv [OF _ _ assms, of rnd]
  obtain t' where cb: "slideshow_work_cb 1 rnd t = Some (Inr t')" and inv: "sequencer_inv 1 t'"
    by auto
  from assms have p: "is_permutation 1 (order t)" by (simp add: sequencer_inv_def)
  from inv have "is_permutation 1 (order t')" by (simp add: sequencer_inv_def)
  then have o': "order t' = [0]" by (rule is_permutation_one)
  have "rand_calls t' = rand_calls t \<and> frames (calls t') = frames (calls t) @ [0]
    \<and> shuffle_count (calls t') \<le> shuffle_count (calls t) + 1"
  proof (cases "1 \<le> unat (order_pos t)")
    case True
    have "length (order t) = 1" using p by (rule is_permutation_length)
    from slideshow_work_cb_reshuffle_facts [OF True _ this, of rnd] cb o'
    show ?thesis by (auto simp add: frames_append shuffle_count_def)
  next
    case False
    then have lt: "unat (order_pos t) < 1" by simp
    from slideshow_work_cb_next_facts [OF lt _ p, of rnd] cb is_permutation_one [OF p] lt
    show ?thesis by (auto simp add: frames_append shuffle_count_def)
  qed
  with cb inv o' show ?thesis by blast
qed

lemma invoke_single:
  assumes "sequencer_inv 1 t"
  shows "\<exists>t'. invoke (slideshow_work_cb 1 rnd) n t = Some (Inr t') \<and> sequencer_inv 1 t'
    \<and> rand_calls t' = rand_calls t"
  using assms
proof (induction n arbitrary: t)
  case 0
  then show ?case by simp
next
  case (Suc n)
  from slideshow_work_cb_single [OF Suc.prems, of rnd]
  obtain t1 where "slideshow_work_cb 1 rnd t = Some (Inr t1)" and "sequencer_inv 1 t1"
    and "rand_calls t1 = rand_calls t"
    by blast
  with Suc.IH [of t1] show ?case by simp
qed

text \<open>
  C8. With a catalogue of one frame, the second loop of \<^verbatim>\<open>shuffle_order\<close> is entered with
  \<open>i = 0\<close> and does nothing: no swap, no call of the random source, hence no remainder
  by zero. \<^verbatim>\<open>shuffle_order\<close> returns and leaves the order \<open>[0]\<close>, the cursor 0 and the
  count of random values as it was. After it, every run of the callback returns, shows
  frame 0 and reshuffles at most once.
\<close>

theorem single_frame_catalogue:
  assumes "length (order s) = 1"
  shows "shuffle_order_swaps rnd (1 - 1) s = Inr s
    \<and> shuffle_order 1 rnd s =
        Some (Inr (s\<lparr>order := [0], order_pos := 0, calls := calls s @ [Shuffle_order]\<rparr>))
    \<and> (\<exists>sn s'.
          invoke (slideshow_work_cb 1 rnd) n
            (s\<lparr>order := [0], order_pos := 0, calls := calls s @ [Shuffle_order]\<rparr>)
            = Some (Inr sn)
        \<and> slideshow_work_cb 1 rnd sn = Some (Inr s')
        \<and> frames (calls s') = frames (calls sn) @ [0]
        \<and> shuffle_count (calls s') \<le> shuffle_count (calls sn) + 1
        \<and> rand_calls s' = rand_calls s
        \<and> order s' = [0])"
proof -
  let ?s0 = "s\<lparr>order := [0], order_pos := 0, calls := calls s @ [Shuffle_order]\<rparr>"
  from shuffle_order_closed [OF _ assms, of rnd]
  obtain ord' where "shuffle_order 1 rnd s =
      Some (Inr (s\<lparr>order := ord', order_pos := 0, rand_calls := rand_calls s + (1 - 1),
                   calls := calls s @ [Shuffle_order]\<rparr>))"
    and "is_permutation 1 ord'"
    by auto
  then have sh: "shuffle_order 1 rnd s = Some (Inr ?s0)"
    by (simp add: is_permutation_one)
  from shuffle_order_result(8) [OF assms sh] have "sequencer_inv 1 ?s0" .
  from invoke_single [OF this, of rnd n]
  obtain sn where i: "invoke (slideshow_work_cb 1 rnd) n ?s0 = Some (Inr sn)"
    and inv: "sequencer_inv 1 sn" and r: "rand_calls sn = rand_calls s"
    by auto
  from slideshow_work_cb_single [OF inv, of rnd] r
  have "\<exists>s'. slideshow_work_cb 1 rnd sn = Some (Inr s')
        \<and> frames (calls s') = frames (calls sn) @ [0]
        \<and> shuffle_count (calls s') \<le> shuffle_count (calls sn) + 1
        \<and> rand_calls s' = rand_calls s
        \<and> order s' = [0]"
    by auto
  with i sh show ?thesis by auto
qed

theorem single_frame_catalogue_witness:
  "length (order (initial_state 1)) = 1
    \<and> shuffle_order 1 demo_rnd (initial_state 1) =
        Some (Inr \<lparr>order = [0], order_pos = 0, rand_calls = 0, calls = [Shuffle_order],
                uptime = 0, pending = None\<rparr>)
    \<and> (\<exists>sn s'.
          invoke (slideshow_work_cb 1 demo_rnd) 5
            \<lparr>order = [0], order_pos = 0, rand_calls = 0, calls = [Shuffle_order],
                uptime = 0, pending = None\<rparr>
            = Some (Inr sn)
        \<and> slideshow_work_cb 1 demo_rnd sn = Some (Inr s')
        \<and> frames (calls s') = frames (calls sn) @ [0]
        \<and> shuffle_count (calls s') \<le> shuffle_count (calls sn) + 1
        \<and> rand_calls s' = 0
        \<and> order s' = [0])"
proof -
  have l: "length (order (initial_state 1)) = 1" by (simp add: initial_state_def)
  from single_frame_catalogue [OF l, of demo_rnd 5] l
  show ?thesis by (simp add: initial_state_def)
qed

subsection \<open>Start-up and the work queue\<close>

lemma swaps_keeps:
  "shuffle_order_swaps rnd i s = Inr s' \<Longrightarrow>
   uptime s' = uptime s \<and> calls s' = calls s \<and> pending s' = pending s"
proof (induction i arbitrary: s)
  case 0
  then show ?case by simp
next
  case (Suc i')
  from Suc.prems obtain o2 where
    "shuffle_order_swaps rnd i' (s\<lparr>rand_calls := rand_calls s + 1, order := o2\<rparr>) = Inr s'"
    by (auto simp add: Let_def split: if_splits sum.splits)
  from Suc.IH [OF this] show ?case by simp
qed

lemma shuffle_order_keeps:
  "shuffle_order N rnd s = Some (Inr s') \<Longrightarrow> uptime s' = uptime s"
  by (auto simp add: shuffle_order_def call_def split: option.splits sum.splits
      dest!: swaps_keeps)

lemma slideshow_work_cb_keeps:
  assumes "slideshow_work_cb N rnd s = Some (Inr s')"
  shows "uptime s' = uptime s"
proof -
  from assms obtain s1 where
    "(if N \<le> unat (order_pos s) then shuffle_order N rnd s else Some (Inr s)) = Some (Inr s1)"
    and "uptime s' = uptime s1"
    by (auto simp add: slideshow_work_cb_def Let_def call_fields k_work_schedule_fields
        split: option.splits sum.splits if_splits)
  then show ?thesis by (auto split: if_splits dest: shuffle_order_keeps)
qed

lemma queue_step_not_before:
  assumes "not_before fs due t" and "queue_step N rnd a t = Some (Inr t')"
  shows "not_before fs due t'"
proof (cases a)
  case (Elapse d)
  with assms show ?thesis by (auto simp add: not_before_def)
next
  case Run_due
  show ?thesis
  proof (cases "\<exists>d. pending t = Some d \<and> d \<le> uptime t")
    case True
    then obtain d where d: "pending t = Some d" "d \<le> uptime t" by blast
    with assms(2) Run_due have "slideshow_work_cb N rnd (t\<lparr>pending := None\<rparr>) = Some (Inr t')"
      by simp
    then have "uptime t' = uptime t" by (auto dest: slideshow_work_cb_keeps)
    with assms(1) d show ?thesis by (auto simp add: not_before_def)
  next
    case False
    with assms(2) Run_due have "t' = t" by (auto split: option.splits if_splits)
    with assms(1) show ?thesis by simp
  qed
qed

lemma queue_run_not_before:
  "not_before fs due t \<Longrightarrow> queue_run N rnd acts t = Some (Inr t') \<Longrightarrow> not_before fs due t'"
proof (induction acts arbitrary: t)
  case Nil
  then show ?case by simp
next
  case (Cons a acts)
  from Cons.prems(2) obtain t1 where 1: "queue_step N rnd a t = Some (Inr t1)"
    and 2: "queue_run N rnd acts t1 = Some (Inr t')"
    by (auto split: option.splits sum.splits)
  from queue_step_not_before [OF Cons.prems(1) 1] have "not_before fs due t1" .
  from Cons.IH [OF this 2] show ?case .
qed

lemma zmk_widget_status_init_closed:
  assumes "1 \<le> N" and "N \<le> 255" and "length (order s) = N"
  shows "\<exists>ord'. is_permutation N ord' \<and> zmk_widget_status_init N rnd s =
    Some (Inr (s\<lparr>order := ord', order_pos := 1, rand_calls := rand_calls s + (N - 1),
      calls := calls s @ [Shuffle_order, K_work_init_delayable, Lv_obj_clean, Lv_img_create,
        Lv_img_set_src (unat (ord' ! 0)), Lv_obj_align,
        K_work_schedule ART_ROTATE_INTERVAL, K_work_schedule ART_ROTATE_INTERVAL],
      pending := Some (uptime s + ART_ROTATE_INTERVAL)\<rparr>))"
proof -
  obtain ord' where
    r: "shuffle_order N rnd s =
          Some (Inr (s\<lparr>order := ord', order_pos := 0, rand_calls := rand_calls s + (N - 1),
                       calls := calls s @ [Shuffle_order]\<rparr>))"
    and p: "is_permutation N ord'"
    using shuffle_order_closed [OF assms(2,3)] by blast
  let ?s1 = "k_work_init_delayable (s\<lparr>order := ord', order_pos := 0,
      rand_calls := rand_calls s + (N - 1), calls := calls s @ [Shuffle_order]\<rparr>)"
  have "unat (order_pos ?s1) < N" and "is_permutation N (order ?s1)"
    using assms(1) p by (simp_all add: k_work_init_delayable_def call_def)
  from slideshow_work_cb_next [OF this, of rnd] r
  have "zmk_widget_status_init N rnd s =
    Some (Inr (s\<lparr>order := ord', order_pos := 1, rand_calls := rand_calls s + (N - 1),
      calls := calls s @ [Shuffle_order, K_work_init_delayable, Lv_obj_clean, Lv_img_create,
        Lv_img_set_src (unat (ord' ! 0)), Lv_obj_align,
        K_work_schedule ART_ROTATE_INTERVAL, K_work_schedule ART_ROTATE_INTERVAL],
      pending := Some (uptime s + ART_ROTATE_INTERVAL)\<rparr>))"
    by (simp add: zmk_widget_status_init_def k_work_init_delayable_def k_work_schedule_def
        call_def)
  with p show ?thesis by blast
qed

lemma zmk_widget_status_init_lv_timer_closed:
  assumes "1 \<le> N" and "N \<le> 255" and "length (order s) = N"
  shows "\<exists>ord'. is_permutation N ord' \<and> zmk_widget_status_init_lv_timer N interval rnd s =
    Some (Inr (s\<lparr>order := ord', order_pos := 1, rand_calls := rand_calls s + (N - 1),
      calls := calls s @ [Shuffle_order, Lv_obj_clean, Lv_img_create,
        Lv_img_set_src (unat (ord' ! 0)), Lv_obj_align, Lv_timer_create interval]\<rparr>))"
proof -
  obtain ord' where
    r: "shuffle_order N rnd s =
          Some (Inr (s\<lparr>order := ord', order_pos := 0, rand_calls := rand_calls s + (N - 1),
                       calls := calls s @ [Shuffle_order]\<rparr>))"
    and p: "is_permutation N ord'"
    using shuffle_order_closed [OF assms(2,3)] by blast
  let ?s1 = "s\<lparr>order := ord', order_pos := 0, rand_calls := rand_calls s + (N - 1),
      calls := calls s @ [Shuffle_order]\<rparr>"
  have "unat (order_pos ?s1) < N" and "is_permutation N (order ?s1)"
    using assms(1) p by simp_all
  from rotate_art_cb_next [OF this, of rnd] r
  have "zmk_widget_status_init_lv_timer N interval rnd s =
    Some (Inr (s\<lparr>order := ord', order_pos := 1, rand_calls := rand_calls s + (N - 1),
      calls := calls s @ [Shuffle_order, Lv_obj_clean, Lv_img_create,
        Lv_img_set_src (unat (ord' ! 0)), Lv_obj_align, Lv_timer_create interval]\<rparr>))"
    by (simp add: zmk_widget_status_init_lv_timer_def call_def)
  with p show ?thesis by blast
qed

lemma init_demo: "zmk_widget_status_init 3 demo_rnd (initial_state 3) = Some (Inr demo_running)"
  by (simp add: zmk_widget_status_init_def shuffle_demo_initial demo_start_def
      k_work_init_delayable_def k_work_schedule_def call_def slideshow_work_cb_def read_at_def
      ART_ROTATE_INTERVAL_def demo_running_def)

lemma queue_run_demo:
  "queue_run 3 demo_rnd [Elapse 600000, Run_due] demo_running =
     Some (Inr (demo_running\<lparr>order_pos := 2, uptime := 600000, pending := Some 1200000,
       calls := calls demo_running @ [Lv_obj_clean, Lv_img_create, Lv_img_set_src 2,
         Lv_obj_align, K_work_schedule 600000]\<rparr>))"
  by (simp add: demo_running_def k_work_schedule_def call_def slideshow_work_cb_def read_at_def
      ART_ROTATE_INTERVAL_def)

text \<open>
  C7. Start-up, for a catalogue of 1 to 255 frames: \<^verbatim>\<open>zmk_widget_status_init\<close> returns;
  it shuffles once, initialises the work item, runs the callback once itself, which
  shows one frame (entry 0 of the order) and schedules the work item one
  ART_ROTATE_INTERVAL ahead, and calls \<^verbatim>\<open>k_work_schedule\<close> once more. The clock has not
  moved, and the work item is due one interval after start-up. Whatever the work queue
  does afterwards, a state in which a further frame has been shown has a clock of at
  least the start-up time plus one interval. (The LVGL-timer version starts the same
  way, with \<^verbatim>\<open>lv_timer_create\<close> in place of the work item: see
  \<open>zmk_widget_status_init_lv_timer_closed\<close>.)
\<close>

theorem start_shows_one_frame_then_waits:
  assumes "1 \<le> N" and "N \<le> 255" and "length (order s) = N"
  shows "\<exists>s1 k. zmk_widget_status_init N rnd s = Some (Inr s1)
    \<and> calls s1 = calls s @ [Shuffle_order, K_work_init_delayable, Lv_obj_clean, Lv_img_create,
        Lv_img_set_src k, Lv_obj_align,
        K_work_schedule ART_ROTATE_INTERVAL, K_work_schedule ART_ROTATE_INTERVAL]
    \<and> k = unat (order s1 ! 0)
    \<and> shuffle_count (calls s1) = shuffle_count (calls s) + 1
    \<and> frames (calls s1) = frames (calls s) @ [k]
    \<and> uptime s1 = uptime s
    \<and> pending s1 = Some (uptime s + ART_ROTATE_INTERVAL)
    \<and> (\<forall>acts s2. queue_run N rnd acts s1 = Some (Inr s2) \<longrightarrow>
          frames (calls s2) \<noteq> frames (calls s1) \<longrightarrow>
          uptime s + ART_ROTATE_INTERVAL \<le> uptime s2)"
proof -
  from zmk_widget_status_init_closed [OF assms, of rnd]
  obtain ord' where i: "zmk_widget_status_init N rnd s =
    Some (Inr (s\<lparr>order := ord', order_pos := 1, rand_calls := rand_calls s + (N - 1),
      calls := calls s @ [Shuffle_order, K_work_init_delayable, Lv_obj_clean, Lv_img_create,
        Lv_img_set_src (unat (ord' ! 0)), Lv_obj_align,
        K_work_schedule ART_ROTATE_INTERVAL, K_work_schedule ART_ROTATE_INTERVAL],
      pending := Some (uptime s + ART_ROTATE_INTERVAL)\<rparr>))" (is "_ = Some (Inr ?s1)")
    by blast
  have nb: "not_before (frames (calls ?s1)) (uptime s + ART_ROTATE_INTERVAL) ?s1"
    by (simp add: not_before_def)
  have later: "uptime s + ART_ROTATE_INTERVAL \<le> uptime s2"
    if "queue_run N rnd acts ?s1 = Some (Inr s2)" and "frames (calls s2) \<noteq> frames (calls ?s1)"
    for acts s2
    using queue_run_not_before [OF nb that(1)] that(2) by (simp add: not_before_def)
  have "calls ?s1 = calls s @ [Shuffle_order, K_work_init_delayable, Lv_obj_clean,
        Lv_img_create, Lv_img_set_src (unat (ord' ! 0)), Lv_obj_align,
        K_work_schedule ART_ROTATE_INTERVAL, K_work_schedule ART_ROTATE_INTERVAL]"
    and "unat (ord' ! 0) = unat (order ?s1 ! 0)"
    and "shuffle_count (calls ?s1) = shuffle_count (calls s) + 1"
    and "frames (calls ?s1) = frames (calls s) @ [unat (ord' ! 0)]"
    and "uptime ?s1 = uptime s"
    and "pending ?s1 = Some (uptime s + ART_ROTATE_INTERVAL)"
    by (simp_all add: shuffle_count_def frames_append)
  with i later show ?thesis by blast
qed

theorem start_shows_one_frame_then_waits_witness:
  "(1::nat) \<le> 3 \<and> (3::nat) \<le> 255 \<and> length (order (initial_state 3)) = 3
   \<and> (\<exists>s1 s2. zmk_widget_status_init 3 demo_rnd (initial_state 3) = Some (Inr s1)
      \<and> calls s1 = [Shuffle_order, K_work_init_delayable, Lv_obj_clean, Lv_img_create,
          Lv_img_set_src 1, Lv_obj_align, K_work_schedule 600000, K_work_schedule 600000]
      \<and> pending s1 = Some 600000
      \<and> queue_run 3 demo_rnd [Elapse 600000, Run_due] s1 = Some (Inr s2)
      \<and> frames (calls s2) \<noteq> frames (calls s1)
      \<and> uptime (initial_state 3) + ART_ROTATE_INTERVAL \<le> uptime s2)"
proof -
  have l: "length (order (initial_state 3)) = 3" by (simp add: initial_state_3)
  let ?s2 = "demo_running\<lparr>order_pos := 2, uptime := 600000, pending := Some 1200000,
       calls := calls demo_running @ [Lv_obj_clean, Lv_img_create, Lv_img_set_src 2,
         Lv_obj_align, K_work_schedule 600000]\<rparr>"
  have f: "frames (calls ?s2) \<noteq> frames (calls demo_running)"
    by (simp add: demo_running_def)
  have h1: "(1::nat) \<le> 3" and h2: "(3::nat) \<le> 255" by simp_all
  from start_shows_one_frame_then_waits [OF h1 h2 l, of demo_rnd]
  obtain s1 where a: "zmk_widget_status_init 3 demo_rnd (initial_state 3) = Some (Inr s1)"
    and b: "\<forall>acts s2. queue_run 3 demo_rnd acts s1 = Some (Inr s2) \<longrightarrow>
          frames (calls s2) \<noteq> frames (calls s1) \<longrightarrow>
          uptime (initial_state 3) + ART_ROTATE_INTERVAL \<le> uptime s2"
    by blast
  from a init_demo have "s1 = demo_running" by simp
  with b queue_run_demo f
  have "uptime (initial_state 3) + ART_ROTATE_INTERVAL \<le> uptime ?s2"
    by blast
  with l init_demo queue_run_demo f show ?thesis
    by (auto simp add: demo_running_def)
qed

subsection \<open>How likely the orderings are\<close>

text \<open>The swaps as a function of the indices drawn: one-to-one and onto.\<close>

lemma swaps_by_index_length: "length (swaps_by_index i js a) = length a"
  by (induction i arbitrary: a) simp_all

lemma swaps_by_index_cong:
  "(\<And>k. 1 \<le> k \<Longrightarrow> k \<le> i \<Longrightarrow> js k = js' k) \<Longrightarrow> swaps_by_index i js a = swaps_by_index i js' a"
  by (induction i arbitrary: a) simp_all

lemma swaps_by_index_above:
  "(\<And>k. 1 \<le> k \<Longrightarrow> k \<le> i \<Longrightarrow> js k \<le> k) \<Longrightarrow> i < n \<Longrightarrow> swaps_by_index i js a ! n = a ! n"
proof (induction i arbitrary: a)
  case 0
  then show ?case by simp
next
  case (Suc i)
  have "js (Suc i) \<le> Suc i" using Suc.prems(1) [of "Suc i"] by simp
  with Suc.prems(2) have "js (Suc i) \<noteq> n" and "Suc i \<noteq> n" by simp_all
  moreover have "swaps_by_index i js (a[Suc i := a ! js (Suc i), js (Suc i) := a ! Suc i]) ! n =
      (a[Suc i := a ! js (Suc i), js (Suc i) := a ! Suc i]) ! n"
    using Suc.prems by (intro Suc.IH) simp_all
  ultimately show ?case by simp
qed

lemma swaps_by_index_mset:
  "(\<And>k. 1 \<le> k \<Longrightarrow> k \<le> i \<Longrightarrow> js k \<le> k) \<Longrightarrow> i = 0 \<or> i < length a \<Longrightarrow>
   mset (swaps_by_index i js a) = mset a"
proof (induction i arbitrary: a)
  case 0
  then show ?case by simp
next
  case (Suc i)
  have j: "js (Suc i) \<le> Suc i" using Suc.prems(1) [of "Suc i"] by simp
  let ?a1 = "a[Suc i := a ! js (Suc i), js (Suc i) := a ! Suc i]"
  have "mset ?a1 = mset a" using j Suc.prems(2) by (simp add: mset_swap)
  moreover have "mset (swaps_by_index i js ?a1) = mset ?a1"
    using Suc.prems by (intro Suc.IH) simp_all
  ultimately show ?case by simp
qed

lemma swap_nth_upper:
  "i < length a \<Longrightarrow> j \<le> i \<Longrightarrow> (a[i := a ! j, j := a ! i]) ! i = a ! j"
  by (cases "j = i") simp_all

lemma swaps_by_index_inj:
  assumes "distinct a" and "i = 0 \<or> i < length a"
    and "\<And>k. 1 \<le> k \<Longrightarrow> k \<le> i \<Longrightarrow> js k \<le> k"
    and "\<And>k. 1 \<le> k \<Longrightarrow> k \<le> i \<Longrightarrow> js' k \<le> k"
    and "swaps_by_index i js a = swaps_by_index i js' a"
    and "1 \<le> k" and "k \<le> i"
  shows "js k = js' k"
  using assms
proof (induction i arbitrary: a)
  case 0
  then show ?case by simp
next
  case (Suc i)
  have j: "js (Suc i) \<le> Suc i" and j': "js' (Suc i) \<le> Suc i"
    using Suc.prems(3) [of "Suc i"] Suc.prems(4) [of "Suc i"] by simp_all
  from Suc.prems(2) have len: "Suc i < length a" by simp
  let ?a1 = "a[Suc i := a ! js (Suc i), js (Suc i) := a ! Suc i]"
  let ?a1' = "a[Suc i := a ! js' (Suc i), js' (Suc i) := a ! Suc i]"
  have "swaps_by_index i js ?a1 ! Suc i = ?a1 ! Suc i"
    using Suc.prems(3) by (intro swaps_by_index_above) simp_all
  moreover have "swaps_by_index i js' ?a1' ! Suc i = ?a1' ! Suc i"
    using Suc.prems(4) by (intro swaps_by_index_above) simp_all
  ultimately have "?a1 ! Suc i = ?a1' ! Suc i" using Suc.prems(5) by simp
  then have "a ! js (Suc i) = a ! js' (Suc i)"
    using len j j' by (simp only: swap_nth_upper)
  then have top: "js (Suc i) = js' (Suc i)"
    using Suc.prems(1) len j j' by (simp add: nth_eq_iff_index_eq)
  show ?case
  proof (cases "k = Suc i")
    case True
    with top show ?thesis by simp
  next
    case False
    with Suc.prems(7) have k: "k \<le> i" by simp
    have "mset ?a1 = mset a" using j len by (simp add: mset_swap)
    then have "distinct ?a1" using Suc.prems(1) by (metis mset_eq_imp_distinct_iff)
    moreover have "i = 0 \<or> i < length ?a1" using len by simp
    moreover have "swaps_by_index i js ?a1 = swaps_by_index i js' ?a1"
      using Suc.prems(5) top by simp
    ultimately show ?thesis
      using Suc.prems(3,4,6) k by (intro Suc.IH [of ?a1]) simp_all
  qed
qed

lemma mset_take_agree:
  assumes "mset p = mset a" and "\<And>k. n \<le> k \<Longrightarrow> k < length a \<Longrightarrow> p ! k = a ! k"
  shows "mset (take n p) = mset (take n a)"
proof -
  from assms(1) have len: "length p = length a" by (rule mset_eq_length)
  have "drop n p = drop n a"
    using len assms(2) by (intro nth_equalityI) simp_all
  moreover have "mset (take n p) + mset (drop n p) = mset (take n a) + mset (drop n a)"
    using assms(1) by (simp flip: mset_append)
  ultimately show ?thesis by simp
qed

lemma swaps_by_index_surj:
  assumes "mset p = mset a" and "i = 0 \<or> i < length a"
    and "\<And>k. i < k \<Longrightarrow> k < length a \<Longrightarrow> p ! k = a ! k"
  shows "\<exists>js. (\<forall>k. 1 \<le> k \<longrightarrow> k \<le> i \<longrightarrow> js k \<le> k) \<and> swaps_by_index i js a = p"
  using assms
proof (induction i arbitrary: a)
  case 0
  from 0(1) have len: "length p = length a" by (rule mset_eq_length)
  have "mset (take 1 p) = mset (take 1 a)"
    using 0(1,3) by (intro mset_take_agree) simp_all
  then have "take 1 p = take 1 a"
    using len by (cases p; cases a) simp_all
  then have "p ! 0 = a ! 0" if "0 < length a"
    using that len by (cases p; cases a) simp_all
  then have "p = a"
    using len 0(3) by (intro nth_equalityI) (simp, metis gr0I)
  then show ?case by simp
next
  case (Suc i)
  from Suc.prems(1) have len: "length p = length a" by (rule mset_eq_length)
  from Suc.prems(2) have il: "Suc i < length a" by simp
  have "mset (take (Suc (Suc i)) p) = mset (take (Suc (Suc i)) a)"
    using Suc.prems(1,3) by (intro mset_take_agree) simp_all
  then have "set (take (Suc (Suc i)) p) = set (take (Suc (Suc i)) a)"
    by (rule mset_eq_setD)
  moreover have "p ! Suc i \<in> set (take (Suc (Suc i)) p)"
    using il len by (metis in_set_conv_nth length_take lessI min_less_iff_conj nth_take)
  ultimately have "p ! Suc i \<in> set (take (Suc (Suc i)) a)" by simp
  then obtain j where j: "j < Suc (Suc i)" and aj: "a ! j = p ! Suc i"
    using il by (auto simp add: in_set_conv_nth)
  let ?a1 = "a[Suc i := a ! j, j := a ! Suc i]"
  have m: "mset p = mset ?a1" using Suc.prems(1) j il by (simp add: mset_swap)
  have agree: "p ! k = ?a1 ! k" if "i < k" and "k < length ?a1" for k
  proof (cases "k = Suc i")
    case True
    have "?a1 ! Suc i = a ! j" using il j by (intro swap_nth_upper) simp_all
    with True aj show ?thesis by simp
  next
    case False
    with that j have "Suc i < k" and "j \<noteq> k" by simp_all
    with Suc.prems(3) [of k] that show ?thesis by simp
  qed
  have "i = 0 \<or> i < length ?a1" using il by simp
  from Suc.IH [OF m this agree]
  obtain js' where b: "\<forall>k. 1 \<le> k \<longrightarrow> k \<le> i \<longrightarrow> js' k \<le> k"
    and r: "swaps_by_index i js' ?a1 = p"
    by blast
  let ?js = "js'(Suc i := j)"
  have "\<forall>k. 1 \<le> k \<longrightarrow> k \<le> Suc i \<longrightarrow> ?js k \<le> k" using b j by auto
  moreover have "swaps_by_index i ?js ?a1 = swaps_by_index i js' ?a1"
    by (rule swaps_by_index_cong) simp
  then have "swaps_by_index (Suc i) ?js a = p" using r by simp
  ultimately show ?case by blast
qed

text \<open>Counting the lists of random values and the orderings.\<close>

lemma streams_finite: "finite {rs :: uint32_t list. length rs = n}"
  using finite_lists_length_eq [of "UNIV :: uint32_t set" n] by simp

lemma streams_card: "card {rs :: uint32_t list. length rs = n} = (2 ^ 32) ^ n"
  using card_lists_length_eq [of "UNIV :: uint32_t set" n] by (simp add: card_word)

lemma shuffled_is_permutation:
  assumes "N \<le> 255"
  shows "\<exists>p. is_permutation N p \<and> shuffled N rs = Some p"
proof -
  have "length (order (initial_state N)) = N" by (simp add: initial_state_def)
  from shuffle_order_closed [OF assms this, of "stream_of rs"]
  show ?thesis by (auto simp add: shuffled_def)
qed

lemma streams_partition:
  assumes "N \<le> 255"
  shows "{rs :: uint32_t list. length rs = N - 1} = (\<Union>p\<in>{p. is_permutation N p}. preimages N p)"
  using shuffled_is_permutation [OF assms] by (auto simp add: preimages_def)

lemma is_permutation_iff:
  assumes "N \<le> 256"
  shows "is_permutation N p \<longleftrightarrow>
    length p = N \<and> distinct p \<and> set p \<subseteq> (of_nat ` {0..<N} :: uint8_t set)"
proof
  assume p: "is_permutation N p"
  then have m: "mset (map unat p) = mset [0..<N]" by (simp add: is_permutation_def)
  then have "distinct (map unat p)" by (metis distinct_upt mset_eq_imp_distinct_iff)
  then have d: "distinct p" by (simp add: distinct_map)
  from m have s: "set (map unat p) = {0..<N}" by (metis mset_eq_setD set_upt)
  have "x \<in> of_nat ` {0..<N}" if "x \<in> set p" for x :: uint8_t
  proof -
    from that s have "unat x \<in> {0..<N}" by auto
    then have "of_nat (unat x) \<in> (of_nat ` {0..<N} :: uint8_t set)" by (rule imageI)
    then show ?thesis by simp
  qed
  with d p show "length p = N \<and> distinct p \<and> set p \<subseteq> (of_nat ` {0..<N} :: uint8_t set)"
    by (auto simp add: is_permutation_length)
next
  assume a: "length p = N \<and> distinct p \<and> set p \<subseteq> (of_nat ` {0..<N} :: uint8_t set)"
  have inj: "inj_on unat (set p)" by (rule inj_onI) (rule unsigned_word_eqI)
  with a have d: "distinct (map unat p)" by (simp add: distinct_map)
  have sub: "set (map unat p) \<subseteq> {0..<N}"
  proof
    fix n assume "n \<in> set (map unat p)"
    then obtain x where "x \<in> set p" and n: "n = unat x" by auto
    with a obtain k where "k < N" and "x = of_nat k" by auto
    with n assms show "n \<in> {0..<N}" by (simp add: unat_of_nat)
  qed
  have "card (set (map unat p)) = length (map unat p)" using d by (rule distinct_card)
  with a have "card (set (map unat p)) = N" by simp
  with sub have "set (map unat p) = {0..<N}" by (intro card_subset_eq) simp_all
  then have "mset_set (set (map unat p)) = mset_set {0..<N}" by simp
  moreover have "mset_set (set (map unat p)) = mset (map unat p)" using d by (rule mset_set_set)
  ultimately have "mset (map unat p) = mset [0..<N]"
    by (simp only: mset_upt)
  then show "is_permutation N p" by (simp add: is_permutation_def)
qed

lemma index_words_card:
  assumes "N \<le> 256"
  shows "card (of_nat ` {0..<N} :: uint8_t set) = N"
proof -
  have "x = y" if "x < N" and "y < N" and e: "(of_nat x :: uint8_t) = of_nat y" for x y :: nat
  proof -
    from e have "unat (of_nat x :: uint8_t) = unat (of_nat y :: uint8_t)" by simp
    then have "x mod 256 = y mod 256" by (simp add: unat_of_nat)
    with that(1,2) assms show ?thesis by simp
  qed
  then have "inj_on (of_nat :: nat \<Rightarrow> uint8_t) {0..<N}"
    by (intro inj_onI) simp
  then show ?thesis by (simp add: card_image)
qed

lemma permutations_finite: "finite {p. is_permutation N p}"
proof -
  have "{p. is_permutation N p} \<subseteq> {p :: uint8_t list. set p \<subseteq> UNIV \<and> length p = N}"
    by (auto simp add: is_permutation_length)
  moreover have "finite {p :: uint8_t list. set p \<subseteq> UNIV \<and> length p = N}"
    by (rule finite_lists_length_eq) simp
  ultimately show ?thesis by (rule finite_subset)
qed

lemma permutations_card:
  assumes "N \<le> 256"
  shows "card {p. is_permutation N p} = \<Prod>{1..N}"
proof -
  let ?A = "of_nat ` {0..<N} :: uint8_t set"
  have "{p. is_permutation N p} = {p. length p = N \<and> distinct p \<and> set p \<subseteq> ?A}"
    using is_permutation_iff [OF assms] by auto
  moreover have "card {p. length p = N \<and> distinct p \<and> set p \<subseteq> ?A} = \<Prod>{card ?A - N + 1..card ?A}"
    by (rule card_lists_distinct_length_eq) (simp_all add: index_words_card [OF assms])
  ultimately show ?thesis by (simp add: index_words_card [OF assms])
qed

lemma preimages_sum:
  assumes "N \<le> 255"
  shows "(\<Sum>p\<in>{p. is_permutation N p}. card (preimages N p)) = (2 ^ 32) ^ (N - 1)"
proof -
  have fin: "finite (preimages N p)" for p
    by (rule finite_subset [OF _ streams_finite [of "N - 1"]]) (auto simp add: preimages_def)
  have "card (\<Union>p\<in>{p. is_permutation N p}. preimages N p) =
        (\<Sum>p\<in>{p. is_permutation N p}. card (preimages N p))"
  proof (rule card_UN_disjoint)
    show "finite {p. is_permutation N p}" by (rule permutations_finite)
    show "\<forall>p\<in>{p. is_permutation N p}. finite (preimages N p)" using fin by blast
    show "\<forall>p\<in>{p. is_permutation N p}. \<forall>q\<in>{p. is_permutation N p}.
        p \<noteq> q \<longrightarrow> preimages N p \<inter> preimages N q = {}"
      by (auto simp add: preimages_def)
  qed
  then show ?thesis
    using streams_partition [OF assms] streams_card [of "N - 1"] by simp
qed

lemma not_equally_likely:
  assumes "3 \<le> N" and "N \<le> 255"
  shows "\<not> (\<forall>p q. is_permutation N p \<longrightarrow> is_permutation N q \<longrightarrow>
            card (preimages N p) = card (preimages N q))"
proof
  assume eq: "\<forall>p q. is_permutation N p \<longrightarrow> is_permutation N q \<longrightarrow>
            card (preimages N p) = card (preimages N q)"
  let ?p0 = "map of_nat [0..<N] :: uint8_t list"
  have p0: "is_permutation N ?p0" using assms by (intro is_permutation_identity) simp
  have "(\<Sum>p\<in>{p. is_permutation N p}. card (preimages N p)) =
        (\<Sum>p\<in>{p. is_permutation N p}. card (preimages N ?p0))"
    using eq p0 by (intro sum.cong refl) blast
  also have "\<dots> = card {p. is_permutation N p} * card (preimages N ?p0)"
    by simp
  also have "card {p. is_permutation N p} = \<Prod>{1..N}"
    using assms by (intro permutations_card) simp
  finally have "\<Prod>{1..N} * card (preimages N ?p0) = (2 ^ 32) ^ (N - 1)"
    using preimages_sum [OF assms(2)] by simp
  moreover have "(3::nat) dvd \<Prod>{1..N}"
    using assms by (intro dvd_prodI) simp_all
  ultimately have "(3::nat) dvd (2 ^ 32) ^ (N - 1)"
    by (metis dvd_mult2)
  then have "((2::nat) ^ 32) ^ (N - 1) mod 3 = 0"
    by (simp only: dvd_eq_mod_eq_0)
  moreover have "((2::nat) ^ 32) ^ (N - 1) mod 3 = ((2 ^ 32) mod 3) ^ (N - 1) mod 3"
    by (simp only: power_mod)
  moreover have "((2::nat) ^ 32) mod 3 = 1" by simp
  ultimately show False by simp
qed

text \<open>The second loop of \<^verbatim>\<open>shuffle_order\<close> does these swaps.\<close>

lemma drawn_index_le: "k + 1 < 2 ^ 32 \<Longrightarrow> drawn_index rnd c i k \<le> k"
  unfolding drawn_index_def by (rule draw_in_range(2))

lemma swaps_as_swaps_by_index:
  "i = 0 \<or> i < length (order s) \<Longrightarrow> length (order s) < 2 ^ 32 \<Longrightarrow>
   shuffle_order_swaps rnd i s =
     Inr (s\<lparr>order := swaps_by_index i (drawn_index rnd (rand_calls s) i) (order s),
            rand_calls := rand_calls s + i\<rparr>)"
proof (induction i arbitrary: s)
  case 0
  then show ?case by simp
next
  case (Suc i')
  let ?i = "Suc i'"
  let ?m = "of_nat (?i + 1) :: uint32_t"
  let ?j = "unat (rnd (rand_calls s) mod ?m)"
  from Suc.prems have il: "?i < length (order s)" by simp
  with Suc.prems have small: "?i + 1 < 2 ^ 32" by simp
  have nz: "?m \<noteq> 0" and jle: "?j \<le> ?i"
    using draw_in_range [OF small] by blast+
  from jle il have jl: "?j < length (order s)" by simp
  let ?o2 = "(order s)[?i := order s ! ?j, ?j := order s ! ?i]"
  let ?s2 = "s\<lparr>rand_calls := rand_calls s + 1, order := ?o2\<rparr>"
  have step: "shuffle_order_swaps rnd ?i s = shuffle_order_swaps rnd i' ?s2"
    using nz il jl by (simp add: Let_def read_at_in write_at_in)
  have "i' = 0 \<or> i' < length (order ?s2)" using il by simp
  moreover have "length (order ?s2) < 2 ^ 32" using Suc.prems by simp
  ultimately have ih: "shuffle_order_swaps rnd i' ?s2 =
     Inr (?s2\<lparr>order := swaps_by_index i' (drawn_index rnd (rand_calls ?s2) i') (order ?s2),
            rand_calls := rand_calls ?s2 + i'\<rparr>)"
    by (rule Suc.IH)
  have top: "drawn_index rnd (rand_calls s) ?i ?i = ?j"
    by (simp add: drawn_index_def)
  have "swaps_by_index i' (drawn_index rnd (rand_calls s + 1) i') ?o2 =
        swaps_by_index i' (drawn_index rnd (rand_calls s) ?i) ?o2"
    by (rule swaps_by_index_cong) (simp add: drawn_index_def Suc_diff_le)
  then have "swaps_by_index ?i (drawn_index rnd (rand_calls s) ?i) (order s) =
        swaps_by_index i' (drawn_index rnd (rand_calls s + 1) i') ?o2"
    using top by simp
  with step ih show ?case by simp
qed

lemma identity_distinct: "N \<le> 256 \<Longrightarrow> distinct (map of_nat [0..<N] :: uint8_t list)"
  using is_permutation_identity [of N] is_permutation_iff [of N "map of_nat [0..<N]"] by simp

lemma shuffled_closed:
  assumes "N \<le> 255"
  shows "shuffled N rs =
    Some (swaps_by_index (N - 1) (drawn_index (stream_of rs) 0 (N - 1)) (map of_nat [0..<N]))"
proof -
  let ?id = "map of_nat [0..<N] :: uint8_t list"
  have fill: "shuffle_order_fill N 0 (order (initial_state N)) = Some (Inr ?id)"
    using fill_closed [of 0 N "order (initial_state N)"] assms by (simp add: initial_state_def)
  let ?s1 = "(initial_state N)\<lparr>order := ?id\<rparr>"
  have "N - 1 = 0 \<or> N - 1 < length (order ?s1)" by auto
  moreover have "length (order ?s1) < 2 ^ 32" using assms by simp
  ultimately have "shuffle_order_swaps (stream_of rs) (N - 1) ?s1 =
     Inr (?s1\<lparr>order := swaps_by_index (N - 1)
              (drawn_index (stream_of rs) (rand_calls ?s1) (N - 1)) (order ?s1),
            rand_calls := rand_calls ?s1 + (N - 1)\<rparr>)"
    by (rule swaps_as_swaps_by_index)
  moreover have "rand_calls ?s1 = 0" by (simp add: initial_state_def)
  ultimately show ?thesis
    using fill by (simp add: shuffled_def shuffle_order_def call_def)
qed

lemma is_permutation_mset:
  assumes "is_permutation N p"
  shows "mset p = mset (map of_nat [0..<N] :: uint8_t list)"
proof -
  from assms have "mset (map unat p) = mset [0..<N]" by (simp add: is_permutation_def)
  then have "image_mset (of_nat :: nat \<Rightarrow> uint8_t) (mset (map unat p)) =
      image_mset of_nat (mset [0..<N])"
    by (rule arg_cong)
  then have a: "mset (map (of_nat :: nat \<Rightarrow> uint8_t) (map unat p)) = mset (map of_nat [0..<N])"
    by (simp only: mset_map)
  have b: "map (of_nat :: nat \<Rightarrow> uint8_t) (map unat p) = p"
    by (simp add: map_idI)
  from a show ?thesis unfolding b .
qed

lemma stream_of_index_list:
  assumes "1 \<le> k" and "k \<le> n" and "js k \<le> k" and "k + 1 < 2 ^ 32"
  shows "drawn_index (stream_of (map (\<lambda>d. of_nat (js (n - d))) [0..<n])) 0 n k = js k"
proof -
  have "n - k < n" using assms(1,2) by simp
  then have "stream_of (map (\<lambda>d. of_nat (js (n - d))) [0..<n]) (n - k) =
      (of_nat (js (n - (n - k))) :: uint32_t)"
    by (simp add: stream_of_def)
  also have "n - (n - k) = k" using assms(2) by simp
  finally have "drawn_index (stream_of (map (\<lambda>d. of_nat (js (n - d))) [0..<n])) 0 n k =
      unat ((of_nat (js k) :: uint32_t) mod of_nat (k + 1))"
    by (simp add: drawn_index_def)
  also have "\<dots> = unat (of_nat (js k) :: uint32_t) mod unat (of_nat (k + 1) :: uint32_t)"
    by (rule unat_mod)
  also have "unat (of_nat (js k) :: uint32_t) = js k"
    using assms(3,4) by (intro unat_of_nat_u32) simp
  also have "unat (of_nat (k + 1) :: uint32_t) = k + 1"
    using assms(4) by (rule unat_of_nat_u32)
  finally show ?thesis using assms(3) by simp
qed

lemma demo_permutation: "is_permutation 3 [1, 2, 0]"
  by (simp add: is_permutation_def upt_rec)

lemma demo_residues:
  "\<forall>k<3 - 1. [3, 8 :: uint32_t] ! k mod of_nat (3 - k) = [6, 10] ! k mod of_nat (3 - k)"
proof (intro allI impI)
  fix k :: nat
  assume "k < 3 - 1"
  then consider "k = 0" | "k = 1" by fastforce
  then show "[3, 8 :: uint32_t] ! k mod of_nat (3 - k) = [6, 10] ! k mod of_nat (3 - k)"
    by cases simp_all
qed

text \<open>
  C3, as the code has it. For a catalogue of 1 to 255 frames, one shuffle draws
  \<open>j = rand mod (i + 1)\<close>, an index from 0 to \<open>i\<close>, for \<open>i\<close> from \<open>N - 1\<close> down to 1 (the
  \<open>k\<close>-th value drawn is reduced modulo \<open>N - k\<close>). It leaves a permutation of the indices
  below \<open>N\<close>, which depends on the random values through the indices drawn only: two
  lists of values lead to the same ordering exactly when they give the same index at every
  draw. Every ordering is reached from some list of values.
\<close>

theorem shuffle_by_drawn_indices:
  assumes "1 \<le> N" and "N \<le> 255" and "length rs = N - 1" and "length rs' = N - 1"
    and "is_permutation N p"
  shows "(\<exists>q. shuffled N rs = Some q \<and> is_permutation N q)
    \<and> (\<forall>k<N - 1. unat (rs ! k mod of_nat (N - k)) \<le> N - 1 - k)
    \<and> (shuffled N rs = shuffled N rs' \<longleftrightarrow>
         (\<forall>k<N - 1. rs ! k mod of_nat (N - k) = rs' ! k mod of_nat (N - k)))
    \<and> (\<exists>rs0. length rs0 = N - 1 \<and> shuffled N rs0 = Some p)"
proof -
  let ?id = "map of_nat [0..<N] :: uint8_t list"
  let ?D = "\<lambda>rs. drawn_index (stream_of rs) 0 (N - 1)"
  have bound: "?D xs k \<le> k" if "k \<le> N - 1" for xs k
    using that assms(2) by (intro drawn_index_le) simp
  have D: "?D xs (N - 1 - d) = unat (xs ! d mod of_nat (N - d))"
    if "d < N - 1" and "length xs = N - 1" for xs d
    using that by (simp add: drawn_index_def stream_of_def)
  have first: "\<exists>q. shuffled N rs = Some q \<and> is_permutation N q"
    using shuffled_is_permutation [OF assms(2)] by blast
  have second: "\<forall>k<N - 1. unat (rs ! k mod of_nat (N - k)) \<le> N - 1 - k"
  proof (intro allI impI)
    fix k assume "k < N - 1"
    with bound [of "N - 1 - k" rs] D [OF _ assms(3), of k] show "unat (rs ! k mod of_nat (N - k)) \<le> N - 1 - k"
      by simp
  qed
  have third: "shuffled N rs = shuffled N rs' \<longleftrightarrow>
         (\<forall>k<N - 1. rs ! k mod of_nat (N - k) = rs' ! k mod of_nat (N - k))"
  proof
    assume "shuffled N rs = shuffled N rs'"
    then have e: "swaps_by_index (N - 1) (?D rs) ?id = swaps_by_index (N - 1) (?D rs') ?id"
      by (simp add: shuffled_closed [OF assms(2)])
    show "\<forall>k<N - 1. rs ! k mod of_nat (N - k) = rs' ! k mod of_nat (N - k)"
    proof (intro allI impI)
      fix d assume d: "d < N - 1"
      have "?D rs (N - 1 - d) = ?D rs' (N - 1 - d)"
      proof (rule swaps_by_index_inj [OF _ _ _ _ e])
        show "distinct ?id" using assms(2) by (intro identity_distinct) simp
        show "N - 1 = 0 \<or> N - 1 < length ?id" using assms(1) by simp
        show "?D rs k \<le> k" if "k \<le> N - 1" for k using that by (rule bound)
        show "?D rs' k \<le> k" if "k \<le> N - 1" for k using that by (rule bound)
        show "1 \<le> N - 1 - d" and "N - 1 - d \<le> N - 1" using d by simp_all
      qed
      then have "unat (rs ! d mod of_nat (N - d)) = unat (rs' ! d mod of_nat (N - d))"
        using D [OF d assms(3)] D [OF d assms(4)] by simp
      then show "rs ! d mod of_nat (N - d) = rs' ! d mod of_nat (N - d)"
        by (rule unsigned_word_eqI)
    qed
  next
    assume r: "\<forall>k<N - 1. rs ! k mod of_nat (N - k) = rs' ! k mod of_nat (N - k)"
    have "swaps_by_index (N - 1) (?D rs) ?id = swaps_by_index (N - 1) (?D rs') ?id"
    proof (rule swaps_by_index_cong)
      fix k assume k: "1 \<le> k" "k \<le> N - 1"
      then have d: "N - 1 - k < N - 1" by simp
      from k have kk: "N - 1 - (N - 1 - k) = k" by simp
      from r d have "rs ! (N - 1 - k) mod of_nat (N - (N - 1 - k)) =
          rs' ! (N - 1 - k) mod of_nat (N - (N - 1 - k))"
        by blast
      with D [OF d assms(3)] D [OF d assms(4)]
      have "?D rs (N - 1 - (N - 1 - k)) = ?D rs' (N - 1 - (N - 1 - k))"
        by (simp only:)
      then show "?D rs k = ?D rs' k" unfolding kk .
    qed
    then show "shuffled N rs = shuffled N rs'"
      by (simp add: shuffled_closed [OF assms(2)])
  qed
  have fourth: "\<exists>rs0. length rs0 = N - 1 \<and> shuffled N rs0 = Some p"
  proof -
    have "mset p = mset ?id" using assms(5) by (rule is_permutation_mset)
    moreover have "N - 1 = 0 \<or> N - 1 < length ?id" using assms(1) by simp
    moreover have "p ! k = ?id ! k" if "N - 1 < k" and "k < length ?id" for k
      using that by simp
    ultimately obtain js where b: "\<forall>k. 1 \<le> k \<longrightarrow> k \<le> N - 1 \<longrightarrow> js k \<le> k"
      and r: "swaps_by_index (N - 1) js ?id = p"
      using swaps_by_index_surj [of p ?id "N - 1"] by blast
    let ?rs0 = "map (\<lambda>d. of_nat (js (N - 1 - d))) [0..<N - 1] :: uint32_t list"
    have "swaps_by_index (N - 1) (?D ?rs0) ?id = swaps_by_index (N - 1) js ?id"
    proof (rule swaps_by_index_cong)
      fix k assume k: "1 \<le> k" "k \<le> N - 1"
      with b have "js k \<le> k" by simp
      moreover have "k + 1 < 2 ^ 32" using k assms(2) by simp
      ultimately show "?D ?rs0 k = js k" using k by (intro stream_of_index_list) simp_all
    qed
    with r have "shuffled N ?rs0 = Some p" by (simp add: shuffled_closed [OF assms(2)])
    moreover have "length ?rs0 = N - 1" by simp
    ultimately show ?thesis by blast
  qed
  from first second third fourth show ?thesis by blast
qed

theorem shuffle_by_drawn_indices_witness:
  "(1::nat) \<le> 3 \<and> (3::nat) \<le> 255
   \<and> length [3, 8 :: uint32_t] = 3 - 1 \<and> length [6, 10 :: uint32_t] = 3 - 1
   \<and> is_permutation 3 [1, 2, 0]
   \<and> (\<exists>q. shuffled 3 [3, 8] = Some q \<and> is_permutation 3 q)
   \<and> shuffled 3 [3, 8] = shuffled 3 [6, 10]
   \<and> (\<exists>rs0. length rs0 = 3 - 1 \<and> shuffled 3 rs0 = Some [1, 2, 0])"
proof -
  have h: "(1::nat) \<le> 3" "(3::nat) \<le> 255" "length [3, 8 :: uint32_t] = 3 - 1"
    "length [6, 10 :: uint32_t] = 3 - 1"
    by simp_all
  from shuffle_by_drawn_indices [OF h demo_permutation] demo_residues
  have "(\<exists>q. shuffled 3 [3, 8] = Some q \<and> is_permutation 3 q)
   \<and> shuffled 3 [3, 8] = shuffled 3 [6, 10]
   \<and> (\<exists>rs0. length rs0 = 3 - 1 \<and> shuffled 3 rs0 = Some [1, 2, 0])"
    by blast
  with h demo_permutation show ?thesis by blast
qed

text \<open>
  C3 as stated fails for the 30 frames of the sources: the orderings do not all have the
  same number of lists of 29 random values leading to them. There are \<open>2 ^ (32 * 29)\<close> such
  lists and \<open>30!\<close> orderings, and 3 divides the second number but not the first. (A
  value reduced modulo 3 is 0 more often than it is 1 or 2, since \<open>2 ^ 32\<close> is not a
  multiple of 3.)
\<close>

theorem shuffle_equally_likely_counterexample:
  "\<not> (\<forall>p q. is_permutation 30 p \<longrightarrow> is_permutation 30 q \<longrightarrow>
          card (preimages 30 p) = card (preimages 30 q))"
  by (rule not_equally_likely) simp_all

end
